theory Spec2Isabelle
  imports Main
begin

section \<open>The syntax tree of \<open>src/parse.go\<close>\<close>

text \<open>
  The six structs that implement the interface \<open>Expr\<close>. A field of interface type
  \<open>Expr\<close> can hold \<open>nil\<close>: the bodies of \<open>MapExpr\<close> and \<open>CmdExpr\<close> are therefore
  optional (\<open>None\<close> is Go's \<open>nil\<close>). The elements of \<open>ListExpr.exprs\<close> are kept
  non-nil: the parser appends an element only after it has tested it against \<open>nil\<close>
  (lines 177-181 and 189-193), and \<open>ListExpr.String\<close> calls the method \<open>String\<close> on
  each element.
\<close>

datatype Expr =
    SetExpr string string
  | MapExpr string "Expr option"
  | CmdExpr string "Expr option"
  | CallExpr string "string list"
  | ExecExpr string string
  | ListExpr "Expr list"

text \<open>
  The verb \<open>%s\<close> of \<open>fmt.Sprintf\<close> on a slice of strings prints the elements between
  brackets, separated by one space.
\<close>

fun join_sp :: "string list \<Rightarrow> string" where
  "join_sp [] = []"
| "join_sp [x] = x"
| "join_sp (x # y # ys) = x @ '' '' @ join_sp (y # ys)"

definition fmt_strings :: "string list \<Rightarrow> string" where
  "fmt_strings xs = ''['' @ join_sp xs @ '']''"

text \<open>
  The methods \<open>String\<close> (lines 49-91). The verb \<open>%s\<close> on an \<open>Expr\<close> calls its
  \<open>String\<close> method, and prints \<open>%!s(<nil>)\<close> for the \<open>nil\<close> interface. The loop of
  \<open>ListExpr.String\<close> appends to \<open>buf\<close>, element after element: a left fold.
\<close>

fun String_Expr :: "Expr \<Rightarrow> string" where
  "String_Expr (SetExpr opt val) = ''set '' @ opt @ '' '' @ val"
| "String_Expr (MapExpr keys e) =
     ''map '' @ keys @ '' '' @ (case e of None \<Rightarrow> ''%!s(<nil>)'' | Some x \<Rightarrow> String_Expr x)"
| "String_Expr (CmdExpr name e) =
     ''cmd '' @ name @ '' '' @ (case e of None \<Rightarrow> ''%!s(<nil>)'' | Some x \<Rightarrow> String_Expr x)"
| "String_Expr (CallExpr name args) = name @ '' -- '' @ fmt_strings args"
| "String_Expr (ExecExpr pref e) = pref @ '' '' @ e"
| "String_Expr (ListExpr exprs) =
     foldl (\<lambda>buf e. (buf @ String_Expr e) @ ''; '') '':{{ '' exprs @ ''}}''"

section \<open>The scanner, as the parser reads it\<close>

text \<open>
  Modelled from the spec: the type \<open>Scanner\<close>, its constants \<open>Token...\<close> and its method
  \<open>scan\<close> are declared in a source file that is not under \<open>src/\<close>; \<open>parse.go\<close> reads
  the fields \<open>typ\<close>, \<open>tok\<close> and \<open>err\<close> and calls \<open>scan\<close>. The categories are those of
  the spec's token model (section 3), under the names \<open>parse.go\<close> uses.
\<close>

datatype TokenType =
    TokenEOF | TokenSemicolon | TokenIdent | TokenColon
  | TokenLBraces | TokenRBraces | TokenPrefix | TokenCommand

text \<open>
  Modelled from the spec: what the scanner will deliver does not depend on the parser,
  so the input still to be read is the list of the results of the coming calls of
  \<open>scan\<close>: a token, or a lexical error. The field \<open>eof_tok\<close> is the text of the
  end-of-input token, which the spec does not give; it is a parameter of every
  statement below.
\<close>

datatype item = Tok TokenType string | LexErr string

record Scanner =
  "typ" :: TokenType
  tok :: string
  err :: "string option"
  pending :: "item list"
  eof_tok :: string

text \<open>
  Modelled from the spec (4.1): \<open>scan\<close> replaces the current token and reports whether
  input remains; end of input yields \<open>TokenEOF\<close> and nothing changes after it; a
  lexical error is recorded in \<open>err\<close>, stays there, and forces end of input.
\<close>

definition at_eof :: "Scanner \<Rightarrow> Scanner" where
  "at_eof s = s\<lparr>typ := TokenEOF, tok := eof_tok s, pending := []\<rparr>"

definition scan :: "Scanner \<Rightarrow> bool \<times> Scanner" where
  "scan s =
     (case pending s of
        [] \<Rightarrow> (False, at_eof s)
      | LexErr e # rest \<Rightarrow> (False, at_eof (s\<lparr>err := Some e\<rparr>))
      | Tok t x # rest \<Rightarrow>
          if t = TokenEOF then (False, at_eof s)
          else (True, s\<lparr>typ := t, tok := x, pending := rest\<rparr>))"

text \<open>A call \<open>s.scan()\<close> whose result is dropped.\<close>

definition adv :: "Scanner \<Rightarrow> Scanner" where
  "adv s = snd (scan s)"

section \<open>The parser of \<open>src/parse.go\<close>\<close>

text \<open>
  The struct \<open>Parser\<close> (lines 93-97); its field \<open>err\<close> is \<open>perr\<close> here, the scanner
  has an \<open>err\<close> of its own. An \<open>error\<close> is its message.
\<close>

record Parser =
  scanner :: Scanner
  expr :: "Expr option"
  perr :: "string option"

text \<open>What is left to read: the measure of the recursion of the parser.\<close>

definition left :: "Scanner \<Rightarrow> nat" where
  "left s = 2 * length (pending s) + (if typ s = TokenEOF then 0 else 1)"

lemma left_adv_le: "left (adv s) \<le> left s"
  by (auto simp: left_def adv_def scan_def at_eof_def split: list.splits item.splits)

lemma left_adv_less: "typ s \<noteq> TokenEOF \<Longrightarrow> left (adv s) < left s"
  by (auto simp: left_def adv_def scan_def at_eof_def split: list.splits item.splits)

lemma scan_True_less: "scan s = (True, s') \<Longrightarrow> length (pending s') < length (pending s)"
  by (auto simp: scan_def at_eof_def split: list.splits item.splits if_splits)

text \<open>
  The loop of the call production (lines 156-159):
  \<open>for s.scan() && s.typ != TokenSemicolon { args = append(args, s.tok) }\<close>.
\<close>

function callLoop :: "string list \<Rightarrow> Scanner \<Rightarrow> string list \<times> Scanner" where
  "callLoop args s =
     (case scan s of (ok, s') \<Rightarrow>
        if ok \<and> typ s' \<noteq> TokenSemicolon then callLoop (args @ [tok s']) s'
        else (args, s'))"
  by pat_completeness auto
termination
  by (relation "measure (\<lambda>(args, s). length (pending s))") (auto dest: scan_True_less[OF sym])

declare callLoop.simps [simp del]

text \<open>
  \<open>parseExpr\<close> (lines 109-235), with the two loops of the list production (lines
  176-185 with \<open>brace\<close>, lines 188-197 without) as \<open>listLoop\<close>. The result \<open>None\<close> is
  Go's \<open>nil\<close>. The call of \<open>log.Println\<close> writes to the log only and is left out.
\<close>

function (domintros) parseExpr :: "Parser \<Rightarrow> Expr option \<times> Parser"
  and listLoop :: "bool \<Rightarrow> Expr list \<Rightarrow> Parser \<Rightarrow> Expr list option \<times> Parser"
where
  "parseExpr p =
     (let s = scanner p in
      case typ s of
        TokenEOF \<Rightarrow> (None, p)
      | TokenSemicolon \<Rightarrow> (None, p\<lparr>scanner := adv s\<rparr>)
      | TokenIdent \<Rightarrow>
          if tok s = ''set'' then
            (let s1 = adv s; opt = tok s1; s2 = adv s1;
                 (val, s3) = (if typ s2 \<noteq> TokenSemicolon then (tok s2, adv s2) else ([], s2));
                 s4 = adv s3
             in (Some (SetExpr opt val), p\<lparr>scanner := s4\<rparr>))
          else if tok s = ''map'' then
            (let s1 = adv s; keys = tok s1; s2 = adv s1 in
             case parseExpr (p\<lparr>scanner := s2\<rparr>) of
               (e, p') \<Rightarrow> (Some (MapExpr keys e), p'))
          else if tok s = ''cmd'' then
            (let s1 = adv s; name = tok s1; s2 = adv s1 in
             case parseExpr (p\<lparr>scanner := s2\<rparr>) of
               (e, p') \<Rightarrow> (Some (CmdExpr name e), p'))
          else
            (let name = tok s in
             case callLoop [] s of (args, s1) \<Rightarrow>
               (let s2 = adv s1 in
                case err s2 of
                  Some e \<Rightarrow> (None, p\<lparr>scanner := s2, perr := Some (''parsing: '' @ e)\<rparr>)
                | None \<Rightarrow> (Some (CallExpr name args), p\<lparr>scanner := s2\<rparr>)))
      | TokenColon \<Rightarrow>
          (let s1 = adv s in
           if typ s1 = TokenLBraces then
             (case listLoop True [] (p\<lparr>scanner := adv s1\<rparr>) of
                (None, p') \<Rightarrow> (None, p')
              | (Some exprs, p') \<Rightarrow>
                  (Some (ListExpr exprs), p'\<lparr>scanner := adv (adv (scanner p'))\<rparr>))
           else
             (case listLoop False [] (p\<lparr>scanner := s1\<rparr>) of
                (None, p') \<Rightarrow> (None, p')
              | (Some exprs, p') \<Rightarrow>
                  (Some (ListExpr exprs), p'\<lparr>scanner := adv (scanner p')\<rparr>)))
      | TokenPrefix \<Rightarrow>
          (let pref = tok s; s1 = adv s;
               (ex, s2) = (if typ s1 = TokenLBraces then (tok (adv s1), adv (adv s1))
                           else if typ s1 = TokenCommand then (tok s1, s1)
                           else ([], s1));
               s3 = adv (adv s2)
           in case err s3 of
                Some e \<Rightarrow> (None, p\<lparr>scanner := s3, perr := Some (''parsing: '' @ e)\<rparr>)
              | None \<Rightarrow> (Some (ExecExpr pref ex), p\<lparr>scanner := s3\<rparr>))
      | _ \<Rightarrow> (None, p))"
| "listLoop brace exprs p =
     (case parseExpr p of
        (None, p') \<Rightarrow> (None, p')
      | (Some e, p') \<Rightarrow>
          (let exprs' = exprs @ [e] in
           if (if brace then typ (scanner p') = TokenRBraces else tok (scanner p') = ''\<newline>'')
           then (Some exprs', p')
           else listLoop brace exprs' p'))"
  by pat_completeness auto

lemma left_adv_trans: "left s \<le> n \<Longrightarrow> left (adv s) \<le> n"
  using left_adv_le [of s] by simp

lemma left_adv_trans_less: "left s < n \<Longrightarrow> left (adv s) < n"
  using left_adv_le [of s] by simp

lemma callLoop_left: "left (snd (callLoop args s)) \<le> left (adv s)"
proof (induction args s rule: callLoop.induct)
  case (1 args s)
  show ?case
  proof (cases "fst (scan s) \<and> typ (adv s) \<noteq> TokenSemicolon")
    case True
    then have "callLoop args s = callLoop (args @ [tok (adv s)]) (adv s)"
      by (subst callLoop.simps) (simp add: adv_def case_prod_beta)
    moreover have "left (snd (callLoop (args @ [tok (adv s)]) (adv s))) \<le> left (adv (adv s))"
      using True "1.IH" [OF prod.collapse] by (simp add: adv_def)
    ultimately show ?thesis
      using left_adv_le [of "adv s"] by simp
  next
    case False
    then have "callLoop args s = (args, adv s)"
      by (subst callLoop.simps) (auto simp: adv_def case_prod_beta)
    then show ?thesis by simp
  qed
qed

lemma parse_consumes_dom:
  "parseExpr_listLoop_dom (Inl p) \<Longrightarrow>
     left (scanner (snd (parseExpr p))) \<le> left (scanner p)
     \<and> (fst (parseExpr p) \<noteq> None \<longrightarrow> left (scanner (snd (parseExpr p))) < left (scanner p))"
  "parseExpr_listLoop_dom (Inr (brace, exprs, p)) \<Longrightarrow>
     left (scanner (snd (listLoop brace exprs p))) \<le> left (scanner p)"
proof (induction p and brace exprs p rule: parseExpr_listLoop.pinduct)
  case (1 p)
  let ?s = "scanner p"
  note ps = parseExpr.psimps [OF "1.hyps"]
  show ?case
  proof (cases "typ ?s")
    case TokenEOF
    then show ?thesis by (simp add: ps)
  next
    case TokenSemicolon
    then show ?thesis by (simp add: ps left_adv_le)
  next
    case TokenIdent
    then have ne: "typ ?s \<noteq> TokenEOF" by simp
    note l1 = left_adv_less [OF ne]
    consider (set) "tok ?s = ''set''" | (map) "tok ?s = ''map''" | (cmd) "tok ?s = ''cmd''"
      | (call) "tok ?s \<noteq> ''set''" "tok ?s \<noteq> ''map''" "tok ?s \<noteq> ''cmd''"
      by blast
    then show ?thesis
    proof cases
      case set
      then show ?thesis
        using TokenIdent l1 by (simp add: ps Let_def left_adv_trans_less less_imp_le case_prod_beta)
    next
      case map
      have "left (scanner (snd (parseExpr (p\<lparr>scanner := adv (adv ?s)\<rparr>)))) \<le> left (adv (adv ?s))"
        using "1.IH"(1) [OF refl TokenIdent _ map refl refl refl] map by simp
      then show ?thesis
        using TokenIdent map l1 left_adv_le [of "adv ?s"]
        by (simp add: ps Let_def case_prod_beta)
    next
      case cmd
      have "left (scanner (snd (parseExpr (p\<lparr>scanner := adv (adv ?s)\<rparr>)))) \<le> left (adv (adv ?s))"
        using "1.IH"(2) [OF refl TokenIdent _ _ cmd refl refl refl] cmd by simp
      then show ?thesis
        using TokenIdent cmd l1 left_adv_le [of "adv ?s"]
        by (simp add: ps Let_def case_prod_beta)
    next
      case call
      have "left (adv (snd (callLoop [] ?s))) < left ?s"
        using callLoop_left [of "[]" ?s] l1 left_adv_le [of "snd (callLoop [] ?s)"] by simp
      then show ?thesis
        using TokenIdent call
        by (simp add: ps Let_def case_prod_beta split: option.splits)
    qed
  next
    case TokenColon
    then have ne: "typ ?s \<noteq> TokenEOF" by simp
    note l1 = left_adv_less [OF ne]
    show ?thesis
    proof (cases "typ (adv ?s) = TokenLBraces")
      case True
      have "left (scanner (snd (listLoop True [] (p\<lparr>scanner := adv (adv ?s)\<rparr>)))) \<le> left (adv (adv ?s))"
        using "1.IH"(3) [OF refl TokenColon refl True] by simp
      then have "left (adv (adv (scanner (snd (listLoop True [] (p\<lparr>scanner := adv (adv ?s)\<rparr>)))))) < left ?s"
        using l1 left_adv_le [of "adv ?s"] by (simp add: left_adv_trans_less)
      moreover have "left (scanner (snd (listLoop True [] (p\<lparr>scanner := adv (adv ?s)\<rparr>)))) < left ?s"
        using \<open>left (scanner (snd (listLoop True [] (p\<lparr>scanner := adv (adv ?s)\<rparr>)))) \<le> left (adv (adv ?s))\<close>
          l1 left_adv_le [of "adv ?s"] by simp
      ultimately show ?thesis
        using TokenColon True
        by (auto simp: ps Let_def case_prod_beta split: option.splits)
    next
      case False
      have le: "left (scanner (snd (listLoop False [] (p\<lparr>scanner := adv ?s\<rparr>)))) \<le> left (adv ?s)"
        using "1.IH"(4) [OF refl TokenColon refl False] by simp
      then have "left (adv (scanner (snd (listLoop False [] (p\<lparr>scanner := adv ?s\<rparr>))))) < left ?s"
        using l1 by (simp add: left_adv_trans_less)
      moreover have "left (scanner (snd (listLoop False [] (p\<lparr>scanner := adv ?s\<rparr>)))) < left ?s"
        using le l1 by simp
      ultimately show ?thesis
        using TokenColon False
        by (auto simp: ps Let_def case_prod_beta split: option.splits)
    qed
  next
    case TokenLBraces
    then show ?thesis by (simp add: ps)
  next
    case TokenRBraces
    then show ?thesis by (simp add: ps)
  next
    case TokenPrefix
    then have ne: "typ ?s \<noteq> TokenEOF" by simp
    note l1 = left_adv_less [OF ne]
    show ?thesis
      using TokenPrefix l1
      by (simp add: ps Let_def left_adv_trans_less less_imp_le case_prod_beta split: option.splits)
  next
    case TokenCommand
    then show ?thesis by (simp add: ps)
  qed
next
  case (2 brace exprs p)
  note ps = listLoop.psimps [OF "2.hyps"]
  obtain r p' where r: "parseExpr p = (r, p')" by (cases "parseExpr p")
  show ?case
  proof (cases r)
    case None
    then show ?thesis using r "2.IH"(1) by (simp add: ps)
  next
    case (Some e)
    show ?thesis
    proof (cases "if brace then typ (scanner p') = TokenRBraces else tok (scanner p') = ''\<newline>''")
      case True
      then show ?thesis using r Some "2.IH"(1) by (simp add: ps)
    next
      case False
      have "left (scanner (snd (listLoop brace (exprs @ [e]) p'))) \<le> left (scanner p')"
        using "2.IH"(2) [OF r [symmetric] Some refl False] .
      then show ?thesis using r Some False "2.IH"(1) by (simp add: ps)
    qed
  qed
qed

termination parseExpr
proof (relation "measure (\<lambda>x. case x of Inl p \<Rightarrow> 2 * left (scanner p)
                                | Inr (b, es, p) \<Rightarrow> 2 * left (scanner p) + 1)", goal_cases)
  case 1
  show ?case by simp
next
  case (2 p x xa xb xc)
  then show ?case
    using left_adv_less [of "scanner p"] left_adv_le [of "adv (scanner p)"] by simp
next
  case (3 p x xa xb xc)
  then show ?case
    using left_adv_less [of "scanner p"] left_adv_le [of "adv (scanner p)"] by simp
next
  case (4 p x xa)
  then show ?case
    using left_adv_less [of "scanner p"] left_adv_le [of "adv (scanner p)"] by simp
next
  case (5 p x xa)
  then show ?case
    using left_adv_less [of "scanner p"] by simp
next
  case (6 brace exprs p)
  show ?case by simp
next
  case (7 brace exprs p x y x2 xa)
  then show ?case
    using parse_consumes_dom(1) [of p] by (simp add: fst_def snd_def split: prod.splits)
qed

declare parseExpr.simps [simp del] listLoop.simps [simp del]

text \<open>\<open>parse\<close> (lines 237-243).\<close>

definition parse :: "Parser \<Rightarrow> bool \<times> Parser" where
  "parse p = (case parseExpr p of (e, p') \<Rightarrow> (e \<noteq> None, p'\<lparr>expr := e\<rparr>))"

section \<open>From text to tokens\<close>

text \<open>
  Modelled from the spec: the lexing rules of section 4.1; the scanner's source is not
  under \<open>src/\<close>. White space separates tokens. A semicolon, two consecutive braces
  and a colon are tokens; a brace with no second one is an unexpected character, a
  lexical error. One of \<open>$ ! & / ?\<close> that starts a token at an expression-start
  position is a prefix. Any other run of characters up to white space, a semicolon or
  a brace is an identifier; a colon inside a run belongs to it, as in the spec's
  example \<open>set ratios 1:2:3;\<close>. After a prefix, and white space if any, there is
  either a block \<open>{{ ... }}\<close>, whose interior is one command token, verbatim; or,
  directly after the prefix, raw text up to a newline that no backslash escapes: one
  command token, followed by a newline token, which has the category of the semicolon
  and the text \<open>\n\<close> that line 194 of \<open>parse.go\<close> tests. A block or a raw text that
  does not end is a lexical error, and after a lexical error there are no more tokens.
  The messages of the errors are not given by the spec; no statement below depends on
  them.

  The expression-start positions are those where the grammar of section 6 lets an
  \<open>Expr\<close> begin: the start of the text, after a semicolon, a colon, doubled braces or
  the newline token of a raw text, and after the keys of \<open>map\<close> and the name of
  \<open>cmd\<close> (as in the spec's example \<open>cmd usage $du -sh .|less\<close>). The scanner keeps
  its position as a mode: \<open>AtExpr\<close> at such a position, \<open>AtName\<close> after an identifier
  \<open>map\<close> or \<open>cmd\<close> that started an expression, \<open>InArgs\<close> after any other
  identifier that started one, up to the semicolon. The tokens of \<open>map\<close> and \<open>cmd\<close>
  stay identifiers.
\<close>

datatype lex_mode = AtExpr | AtName | InArgs

fun next_mode :: "lex_mode \<Rightarrow> string \<Rightarrow> lex_mode" where
  "next_mode AtExpr w = (if w = ''map'' \<or> w = ''cmd'' then AtName else InArgs)"
| "next_mode AtName w = AtExpr"
| "next_mode InArgs w = InArgs"

definition isSpace :: "char \<Rightarrow> bool" where
  "isSpace c = (c \<in> set [CHR '' '', CHR 0x09, CHR 0x0A, CHR 0x0B, CHR 0x0C, CHR 0x0D])"

definition isPrefix :: "char \<Rightarrow> bool" where
  "isPrefix c = (c \<in> set ''$!&/?'')"

definition inIdent :: "char \<Rightarrow> bool" where
  "inIdent c = (\<not> isSpace c \<and> c \<notin> set '';{}'')"

fun until_rbraces :: "string \<Rightarrow> string \<Rightarrow> (string \<times> string) option" where
  "until_rbraces acc [] = None"
| "until_rbraces acc [c] = None"
| "until_rbraces acc (c # d # cs) =
     (if c = CHR ''}'' \<and> d = CHR ''}'' then Some (acc, cs)
      else until_rbraces (acc @ [c]) (d # cs))"

fun until_newline :: "string \<Rightarrow> string \<Rightarrow> (string \<times> string) option" where
  "until_newline acc [] = None"
| "until_newline acc (c # cs) =
     (if c = CHR 0x0A then Some (acc, cs)
      else if c = CHR 0x5C then
        (case cs of [] \<Rightarrow> None | d # ds \<Rightarrow> until_newline (acc @ [c, d]) ds)
      else until_newline (acc @ [c]) cs)"

definition after_prefix :: "string \<Rightarrow> item list \<times> string option" where
  "after_prefix cs =
     (let bs = dropWhile isSpace cs in
      if take 2 bs = ''{{'' then
        (case until_rbraces [] (drop 2 bs) of
           None \<Rightarrow> ([Tok TokenLBraces ''{{'', LexErr ''unterminated block''], None)
         | Some (body, rest) \<Rightarrow>
             ([Tok TokenLBraces ''{{'', Tok TokenCommand body, Tok TokenRBraces ''}}''], Some rest))
      else
        (case until_newline [] cs of
           None \<Rightarrow> ([LexErr ''unterminated command''], None)
         | Some (body, rest) \<Rightarrow>
             ([Tok TokenCommand body, Tok TokenSemicolon ''\<newline>''], Some rest)))"

lemma until_rbraces_shorter: "until_rbraces acc cs = Some (t, r) \<Longrightarrow> length r < length cs"
  by (induction acc cs rule: until_rbraces.induct) (auto split: if_splits)

lemma until_newline_shorter: "until_newline acc cs = Some (t, r) \<Longrightarrow> length r < length cs"
  by (induction acc cs rule: until_newline.induct) (auto split: if_splits list.splits)

lemma after_prefix_shorter: "after_prefix cs = (its, Some r) \<Longrightarrow> length r < length cs"
proof -
  have d: "length (dropWhile isSpace cs) \<le> length cs" by (rule length_dropWhile_le)
  assume "after_prefix cs = (its, Some r)"
  then show ?thesis
    using d
    by (auto simp: after_prefix_def Let_def split: if_splits option.splits
             dest!: until_rbraces_shorter until_newline_shorter)
qed

function lex :: "lex_mode \<Rightarrow> string \<Rightarrow> item list" where
  "lex m [] = []"
| "lex m (c # cs) =
     (if isSpace c then lex m cs
      else if c = CHR '';'' then Tok TokenSemicolon '';'' # lex AtExpr cs
      else if c = CHR ''{'' then
        (if take 1 cs = ''{'' then Tok TokenLBraces ''{{'' # lex AtExpr (drop 1 cs)
         else [LexErr ''unexpected character''])
      else if c = CHR ''}'' then
        (if take 1 cs = ''}'' then Tok TokenRBraces ''}}'' # lex AtExpr (drop 1 cs)
         else [LexErr ''unexpected character''])
      else if c = CHR '':'' then Tok TokenColon '':'' # lex AtExpr cs
      else if isPrefix c \<and> m = AtExpr then
        (case after_prefix cs of
           (its, None) \<Rightarrow> Tok TokenPrefix [c] # its
         | (its, Some rest) \<Rightarrow> Tok TokenPrefix [c] # its @ lex AtExpr rest)
      else Tok TokenIdent (c # takeWhile inIdent cs)
             # lex (next_mode m (c # takeWhile inIdent cs)) (dropWhile inIdent cs))"
  by pat_completeness auto
termination
proof (relation "measure (\<lambda>(m, cs). length cs)", goal_cases)
  case (7 m c cs x y z)
  then show ?case using after_prefix_shorter [of cs x z] by simp
next
  case (8 m c cs)
  then show ?case using length_dropWhile_le [of inIdent cs] by simp
qed auto

text \<open>
  \<open>newScanner\<close> and \<open>newParser\<close> (lines 99-107), on the text \<open>r\<close> that the reader
  delivers: the parser starts after one call of \<open>scan\<close>, which overwrites the initial
  \<open>typ\<close> and \<open>tok\<close>. The argument \<open>eof\<close> is the text of the end-of-input token.
\<close>

definition newScanner :: "string \<Rightarrow> string \<Rightarrow> Scanner" where
  "newScanner eof r = \<lparr>typ = TokenEOF, tok = [], err = None, pending = lex AtExpr r, eof_tok = eof\<rparr>"

definition newParser :: "string \<Rightarrow> string \<Rightarrow> Parser" where
  "newParser eof r = \<lparr>scanner = adv (newScanner eof r), expr = None, perr = None\<rparr>"

section \<open>Vocabulary of the statements\<close>

text \<open>
  \<open>reading s its\<close> is the scanner \<open>s\<close> standing on the first of the items \<open>its\<close>:
  the state one call of \<open>scan\<close> after \<open>its\<close> became the input left to read.
\<close>

definition reading :: "Scanner \<Rightarrow> item list \<Rightarrow> Scanner" where
  "reading s its = adv (s\<lparr>pending := its\<rparr>)"

text \<open>The exit tests of the two list loops (lines 182 and 194).\<close>

definition stops :: "bool \<Rightarrow> Parser \<Rightarrow> bool" where
  "stops brace p =
     (if brace then typ (scanner p) = TokenRBraces else tok (scanner p) = ''\<newline>'')"

text \<open>
  \<open>run brace p es q\<close>: starting in \<open>p\<close>, successive calls of \<open>parseExpr\<close>, each from
  the state the one before left, return the expressions \<open>es\<close>, in this order, none
  of them \<open>nil\<close>, and the exit test holds for the first time after the last one, in
  state \<open>q\<close>. \<open>broken brace p q\<close>: such a sequence of calls reaches, before any exit
  test holds, a call that returns \<open>nil\<close>, leaving state \<open>q\<close>.
\<close>

inductive run :: "bool \<Rightarrow> Parser \<Rightarrow> Expr list \<Rightarrow> Parser \<Rightarrow> bool" where
  run_last: "parseExpr p = (Some e, p') \<Longrightarrow> stops brace p' \<Longrightarrow> run brace p [e] p'"
| run_more: "parseExpr p = (Some e, p') \<Longrightarrow> \<not> stops brace p' \<Longrightarrow> run brace p' es p''
             \<Longrightarrow> run brace p (e # es) p''"

inductive broken :: "bool \<Rightarrow> Parser \<Rightarrow> Parser \<Rightarrow> bool" where
  broken_now: "parseExpr p = (None, p') \<Longrightarrow> broken brace p p'"
| broken_later: "parseExpr p = (Some e, p') \<Longrightarrow> \<not> stops brace p' \<Longrightarrow> broken brace p' p''
             \<Longrightarrow> broken brace p p''"

text \<open>
  The grammar of section 6 of the spec, over tokens: \<open>gExpr ts e\<close> says that the
  tokens \<open>ts\<close> are one \<open>Expr\<close> of the grammar and \<open>e\<close> is its tree; \<open>gSeq\<close> is a
  sequence of them. Names, options, values, keys and arguments are identifiers, the
  name of a call is none of the three keywords, and the \<open>\n\<close> of the grammar is the
  newline token. Of the lists, only the brace form with at least one element is here:
  the line form and the empty brace list are left out.
\<close>

inductive gExpr :: "item list \<Rightarrow> Expr \<Rightarrow> bool"
  and gSeq :: "item list \<Rightarrow> Expr list \<Rightarrow> bool"
where
  gSet: "gExpr [Tok TokenIdent ''set'', Tok TokenIdent opt, Tok TokenSemicolon sc] (SetExpr opt [])"
| gSetVal: "gExpr [Tok TokenIdent ''set'', Tok TokenIdent opt, Tok TokenIdent val, Tok TokenSemicolon sc]
              (SetExpr opt val)"
| gMap: "gExpr ts e \<Longrightarrow> gExpr (Tok TokenIdent ''map'' # Tok TokenIdent keys # ts) (MapExpr keys (Some e))"
| gCmd: "gExpr ts e \<Longrightarrow> gExpr (Tok TokenIdent ''cmd'' # Tok TokenIdent name # ts) (CmdExpr name (Some e))"
| gCall: "name \<notin> {''set'', ''map'', ''cmd''} \<Longrightarrow>
          gExpr (Tok TokenIdent name # map (Tok TokenIdent) args @ [Tok TokenSemicolon sc])
            (CallExpr name args)"
| gExecLine: "gExpr [Tok TokenPrefix pref, Tok TokenCommand body, Tok TokenSemicolon ''\<newline>'']
                (ExecExpr pref body)"
| gExecBlock: "gExpr [Tok TokenPrefix pref, Tok TokenLBraces lb, Tok TokenCommand body,
                      Tok TokenRBraces rb, Tok TokenSemicolon sc] (ExecExpr pref body)"
| gListBlock: "gSeq ts es \<Longrightarrow> es \<noteq> [] \<Longrightarrow>
               gExpr (Tok TokenColon c # Tok TokenLBraces lb # ts
                      @ [Tok TokenRBraces rb, Tok TokenSemicolon sc]) (ListExpr es)"
| gNil: "gSeq [] []"
| gCons: "gExpr ts e \<Longrightarrow> gSeq tss es \<Longrightarrow> gSeq (ts @ tss) (e # es)"

text \<open>The tokens an \<open>Expr\<close> of the grammar can start with.\<close>

definition starts :: "item list \<Rightarrow> bool" where
  "starts ts = (\<exists>t x ts'. ts = Tok t x # ts' \<and> t \<in> {TokenIdent, TokenColon, TokenPrefix})"

text \<open>
  The trees whose text \<open>String\<close> is read back (C2): a word is a run of identifier
  characters that does not start with a colon;
  \<open>in_list\<close> are the trees that are read back as elements of a list, \<open>at_top\<close>
  those that are read back when the text ends after them.
\<close>

definition word :: "string \<Rightarrow> bool" where
  "word w = (w \<noteq> [] \<and> (\<forall>c \<in> set w. inIdent c) \<and> hd w \<noteq> CHR '':'')"

fun in_list :: "Expr \<Rightarrow> bool" where
  "in_list (SetExpr opt val) = (word opt \<and> (val = [] \<or> word val))"
| "in_list (MapExpr keys e) = (word keys \<and> (case e of None \<Rightarrow> False | Some x \<Rightarrow> in_list x))"
| "in_list (CmdExpr name e) = (word name \<and> (case e of None \<Rightarrow> False | Some x \<Rightarrow> in_list x))"
| "in_list (CallExpr name args) = False"
| "in_list (ExecExpr pref e) = False"
| "in_list (ListExpr exprs) = (exprs \<noteq> [] \<and> (\<forall>e \<in> set exprs. in_list e))"

fun at_top :: "Expr \<Rightarrow> bool" where
  "at_top (SetExpr opt val) = (word opt \<and> word val)"
| "at_top (MapExpr keys e) = (word keys \<and> (case e of None \<Rightarrow> False | Some x \<Rightarrow> at_top x))"
| "at_top (CmdExpr name e) = (word name \<and> (case e of None \<Rightarrow> False | Some x \<Rightarrow> at_top x))"
| "at_top (CallExpr name args) = False"
| "at_top (ExecExpr pref e) = False"
| "at_top (ListExpr exprs) = (exprs \<noteq> [] \<and> (\<forall>e \<in> set exprs. in_list e))"

section \<open>Facts about the scanner\<close>

lemma foldl_buf:
  "foldl (\<lambda>buf e. buf @ f e @ s) b xs = b @ concat (map (\<lambda>e. f e @ s) xs)"
  by (induction xs arbitrary: b) simp_all

declare lex.simps [simp del]

lemma reading_Tok:
  "t \<noteq> TokenEOF \<Longrightarrow> reading s (Tok t x # rest) = s\<lparr>typ := t, tok := x, pending := rest\<rparr>"
  by (simp add: reading_def adv_def scan_def)

lemma adv_overwrites:
  "adv (s\<lparr>typ := t, tok := x, pending := its\<rparr>) = adv (s\<lparr>pending := its\<rparr>)"
  by (simp add: adv_def scan_def at_eof_def split: list.splits item.splits)

lemma adv_reading:
  "t \<noteq> TokenEOF \<Longrightarrow> adv (reading s (Tok t x # rest)) = reading s rest"
  by (simp add: reading_Tok adv_overwrites) (simp add: reading_def)

lemma typ_reading [simp]: "t \<noteq> TokenEOF \<Longrightarrow> typ (reading s (Tok t x # rest)) = t"
  and tok_reading [simp]: "t \<noteq> TokenEOF \<Longrightarrow> tok (reading s (Tok t x # rest)) = x"
  and err_reading [simp]: "t \<noteq> TokenEOF \<Longrightarrow> err (reading s (Tok t x # rest)) = err s"
  by (simp_all add: reading_Tok)

lemma err_adv_sticky: "err s = Some e \<Longrightarrow> \<exists>e'. err (adv s) = Some e'"
  by (auto simp: adv_def scan_def at_eof_def split: list.splits item.splits)

lemma err_reading_None: "err (reading s its) = None \<Longrightarrow> err s = None"
  using err_adv_sticky [of "s\<lparr>pending := its\<rparr>"] by (cases "err s") (auto simp: reading_def)

lemma scan_reading:
  "t \<noteq> TokenEOF \<Longrightarrow> t' \<noteq> TokenEOF \<Longrightarrow>
   scan (reading s (Tok t x # Tok t' x' # rest)) = (True, reading s (Tok t' x' # rest))"
  by (simp add: reading_Tok scan_def)

section \<open>The productions\<close>

lemma callLoop_collect:
  "t0 \<noteq> TokenEOF \<Longrightarrow> \<forall>a \<in> set args. fst a \<noteq> TokenSemicolon \<and> fst a \<noteq> TokenEOF \<Longrightarrow>
   callLoop acc (reading s (Tok t0 x0 # map (\<lambda>(t, x). Tok t x) args @ Tok TokenSemicolon sc # rest))
   = (acc @ map snd args, reading s (Tok TokenSemicolon sc # rest))"
proof (induction args arbitrary: acc t0 x0)
  case Nil
  then show ?case
    by (subst callLoop.simps) (simp add: scan_reading)
next
  case (Cons a args)
  obtain t x where a: "a = (t, x)" by (cases a)
  with Cons.prems have t: "t \<noteq> TokenSemicolon" "t \<noteq> TokenEOF" by auto
  have "callLoop acc (reading s (Tok t0 x0 # map (\<lambda>(t, x). Tok t x) (a # args)
                                  @ Tok TokenSemicolon sc # rest))
      = callLoop (acc @ [x]) (reading s (Tok t x # map (\<lambda>(t, x). Tok t x) args
                                          @ Tok TokenSemicolon sc # rest))"
    using t Cons.prems(1) by (subst callLoop.simps) (simp add: a scan_reading)
  also have "\<dots> = ((acc @ [x]) @ map snd args, reading s (Tok TokenSemicolon sc # rest))"
    using Cons.prems(2) by (intro Cons.IH t) simp
  finally show ?case by (simp add: a)
qed

lemma parseExpr_call:
  "typ (scanner p) = TokenIdent \<Longrightarrow> tok (scanner p) \<notin> {''set'', ''map'', ''cmd''} \<Longrightarrow>
   parseExpr p =
     (let s2 = adv (snd (callLoop [] (scanner p))) in
      case err s2 of
        Some e \<Rightarrow> (None, p\<lparr>scanner := s2, perr := Some (''parsing: '' @ e)\<rparr>)
      | None \<Rightarrow> (Some (CallExpr (tok (scanner p)) (fst (callLoop [] (scanner p)))),
                 p\<lparr>scanner := s2\<rparr>))"
  by (subst parseExpr.simps) (simp add: Let_def case_prod_beta)

lemma parseExpr_exec:
  "typ (scanner p) = TokenPrefix \<Longrightarrow>
   parseExpr p =
     (let s1 = adv (scanner p);
          s3 = adv (adv (if typ s1 = TokenLBraces then adv (adv s1) else s1)) in
      case err s3 of
        Some e \<Rightarrow> (None, p\<lparr>scanner := s3, perr := Some (''parsing: '' @ e)\<rparr>)
      | None \<Rightarrow> (Some (ExecExpr (tok (scanner p))
                         (if typ s1 = TokenLBraces then tok (adv s1)
                          else if typ s1 = TokenCommand then tok s1 else [])),
                 p\<lparr>scanner := s3\<rparr>))"
  by (subst parseExpr.simps) (simp add: Let_def case_prod_beta cong: option.case_cong)

text \<open>
  C1. The claim: a non-nil result of \<open>parseExpr\<close> has no \<open>nil\<close> sub-expression, and
  for the input \<open>map gg\<close>, which ends before the body, \<open>parse\<close> returns false with an
  error recorded. The code at this input: the \<open>map\<close> production stores the result of
  the recursive call without testing it (lines 142-144, as lines 150-152 for \<open>cmd\<close>),
  so \<open>parse\<close> returns true, the tree is a \<open>MapExpr\<close> whose body is \<open>nil\<close>, and no error
  is recorded. The list loops do test it (lines 178 and 190).
\<close>

theorem C1_map_gg:
  "parse (newParser eof ''map gg'') =
     (True, \<lparr>scanner = \<lparr>typ = TokenEOF, tok = eof, err = None, pending = [], eof_tok = eof\<rparr>,
             expr = Some (MapExpr ''gg'' None), perr = None\<rparr>)"
  by code_simp

text \<open>
  C3. The claim: on a token of any other category \<open>parseExpr\<close> fails with a recorded
  syntax error. The code at the input \<open>}}\<close>, whose first token is a right brace: the
  \<open>default\<close> branch (lines 228-230) holds only the comment \<open>TODO: handle error\<close>, so the
  result is \<open>nil\<close>, the token is not consumed, and no error is recorded.
\<close>

theorem C3_other_category:
  "parse (newParser eof ''}}'') =
     (False, \<lparr>scanner = \<lparr>typ = TokenRBraces, tok = ''}}'', err = None, pending = [], eof_tok = eof\<rparr>,
              expr = None, perr = None\<rparr>)"
  by code_simp

text \<open>
  C4, as amended. When the current token is a semicolon, \<open>parseExpr\<close> consumes it with
  one call of \<open>scan\<close> and returns \<open>nil\<close>, with no error recorded; it does not go on
  to the statement after the semicolon, which is left for the next call.
\<close>

theorem C4_semicolon:
  "typ (scanner p) = TokenSemicolon \<Longrightarrow> parseExpr p = (None, p\<lparr>scanner := adv (scanner p)\<rparr>)"
  by (subst parseExpr.simps) simp

theorem C4_semicolon_witness:
  "typ (scanner (newParser ''EOF'' '';set a b;'')) = TokenSemicolon
   \<and> parseExpr (newParser ''EOF'' '';set a b;'')
       = (None, (newParser ''EOF'' '';set a b;'')
                  \<lparr>scanner := adv (scanner (newParser ''EOF'' '';set a b;''))\<rparr>)"
proof -
  have h: "typ (scanner (newParser ''EOF'' '';set a b;'')) = TokenSemicolon"
    by code_simp
  show ?thesis
    using h C4_semicolon [OF h] by simp
qed

text \<open>
  C4 as stated fails: on the input \<open>;set a b;\<close> the parser stands on a semicolon, the
  statement after it parses to \<open>SetExpr a b\<close> (the second call returns it), and the
  first call returns \<open>nil\<close>.
\<close>

theorem C4_semicolon_counterexample:
  "typ (scanner (newParser ''EOF'' '';set a b;'')) = TokenSemicolon
   \<and> fst (parseExpr (newParser ''EOF'' '';set a b;'')) = None
   \<and> fst (parseExpr (snd (parseExpr (newParser ''EOF'' '';set a b;''))))
       = Some (SetExpr ''a'' ''b'')"
  by code_simp

text \<open>
  C5. The \<open>set\<close> production: after the keyword come the option name and then either
  the semicolon, and the value is empty, or a value and the semicolon; the parser
  consumes all of them and returns \<open>SetExpr\<close> with the option and the value. In
  particular \<open>set nohidden;\<close> gives \<open>SetExpr nohidden\<close> with the empty value.
\<close>

theorem C5_set:
  "(t0 \<noteq> TokenEOF \<and>
    scanner p = reading s (Tok TokenIdent ''set'' # Tok t0 opt # Tok TokenSemicolon sc # rest)
      \<longrightarrow> parseExpr p = (Some (SetExpr opt []), p\<lparr>scanner := reading s rest\<rparr>))
   \<and> (t0 \<noteq> TokenEOF \<and> t1 \<noteq> TokenEOF \<and> t1 \<noteq> TokenSemicolon \<and>
    scanner p = reading s (Tok TokenIdent ''set'' # Tok t0 opt # Tok t1 val
                            # Tok TokenSemicolon sc # rest)
      \<longrightarrow> parseExpr p = (Some (SetExpr opt val), p\<lparr>scanner := reading s rest\<rparr>))
   \<and> parse (newParser eof ''set nohidden;'') =
       (True, \<lparr>scanner = \<lparr>typ = TokenEOF, tok = eof, err = None, pending = [], eof_tok = eof\<rparr>,
               expr = Some (SetExpr ''nohidden'' []), perr = None\<rparr>)"
proof (intro conjI impI)
  assume "t0 \<noteq> TokenEOF \<and>
    scanner p = reading s (Tok TokenIdent ''set'' # Tok t0 opt # Tok TokenSemicolon sc # rest)"
  then show "parseExpr p = (Some (SetExpr opt []), p\<lparr>scanner := reading s rest\<rparr>)"
    by (subst parseExpr.simps) (simp add: adv_reading)
next
  assume "t0 \<noteq> TokenEOF \<and> t1 \<noteq> TokenEOF \<and> t1 \<noteq> TokenSemicolon \<and>
    scanner p = reading s (Tok TokenIdent ''set'' # Tok t0 opt # Tok t1 val
                            # Tok TokenSemicolon sc # rest)"
  then show "parseExpr p = (Some (SetExpr opt val), p\<lparr>scanner := reading s rest\<rparr>)"
    by (subst parseExpr.simps) (simp add: adv_reading)
next
  show "parse (newParser eof ''set nohidden;'') =
       (True, \<lparr>scanner = \<lparr>typ = TokenEOF, tok = eof, err = None, pending = [], eof_tok = eof\<rparr>,
               expr = Some (SetExpr ''nohidden'' []), perr = None\<rparr>)"
    by code_simp
qed

theorem C5_set_witness:
  "(TokenIdent \<noteq> TokenEOF
    \<and> scanner (newParser ''EOF'' ''set nohidden;'')
        = reading (newScanner ''EOF'' ''set nohidden;'')
            (Tok TokenIdent ''set'' # Tok TokenIdent ''nohidden'' # Tok TokenSemicolon '';'' # []))
   \<and> parseExpr (newParser ''EOF'' ''set nohidden;'')
        = (Some (SetExpr ''nohidden'' []),
           (newParser ''EOF'' ''set nohidden;'')
             \<lparr>scanner := reading (newScanner ''EOF'' ''set nohidden;'') []\<rparr>)
   \<and> (TokenIdent \<noteq> TokenEOF \<and> TokenIdent \<noteq> TokenEOF \<and> TokenIdent \<noteq> TokenSemicolon
    \<and> scanner (newParser ''EOF'' ''set ratios 1:2:3;'')
        = reading (newScanner ''EOF'' ''set ratios 1:2:3;'')
            (Tok TokenIdent ''set'' # Tok TokenIdent ''ratios'' # Tok TokenIdent ''1:2:3''
             # Tok TokenSemicolon '';'' # []))
   \<and> parseExpr (newParser ''EOF'' ''set ratios 1:2:3;'')
        = (Some (SetExpr ''ratios'' ''1:2:3''),
           (newParser ''EOF'' ''set ratios 1:2:3;'')
             \<lparr>scanner := reading (newScanner ''EOF'' ''set ratios 1:2:3;'') []\<rparr>)"
proof -
  have h1: "TokenIdent \<noteq> TokenEOF
    \<and> scanner (newParser ''EOF'' ''set nohidden;'')
        = reading (newScanner ''EOF'' ''set nohidden;'')
            (Tok TokenIdent ''set'' # Tok TokenIdent ''nohidden'' # Tok TokenSemicolon '';'' # [])"
    by code_simp
  have h2: "TokenIdent \<noteq> TokenEOF \<and> TokenIdent \<noteq> TokenEOF \<and> TokenIdent \<noteq> TokenSemicolon
    \<and> scanner (newParser ''EOF'' ''set ratios 1:2:3;'')
        = reading (newScanner ''EOF'' ''set ratios 1:2:3;'')
            (Tok TokenIdent ''set'' # Tok TokenIdent ''ratios'' # Tok TokenIdent ''1:2:3''
             # Tok TokenSemicolon '';'' # [])"
    by code_simp
  note c = C5_set [where eof = "''EOF''"]
  show ?thesis
    using c [THEN conjunct1, THEN mp, OF h1] c [THEN conjunct2, THEN conjunct1, THEN mp, OF h2]
      h1 h2
    by blast
qed

text \<open>
  C6. A call: the command name, then tokens of any category but semicolon, then the
  semicolon. The parser returns \<open>CallExpr\<close> with the name and the texts of all these
  tokens, in their order, and stands on what follows the semicolon (where the scanner
  has recorded no error). In particular \<open>open a b c;\<close> gives the arguments \<open>a\<close>,
  \<open>b\<close>, \<open>c\<close>.
\<close>

theorem C6_call:
  "(name \<notin> {''set'', ''map'', ''cmd''}
    \<and> (\<forall>a \<in> set args. fst a \<noteq> TokenSemicolon \<and> fst a \<noteq> TokenEOF)
    \<and> err (reading s rest) = None
    \<and> scanner p = reading s (Tok TokenIdent name # map (\<lambda>(t, x). Tok t x) args
                                @ Tok TokenSemicolon sc # rest)
      \<longrightarrow> parseExpr p = (Some (CallExpr name (map snd args)), p\<lparr>scanner := reading s rest\<rparr>))
   \<and> parse (newParser eof ''open a b c;'') =
       (True, \<lparr>scanner = \<lparr>typ = TokenEOF, tok = eof, err = None, pending = [], eof_tok = eof\<rparr>,
               expr = Some (CallExpr ''open'' [''a'', ''b'', ''c'']), perr = None\<rparr>)"
proof (intro conjI impI)
  assume h: "name \<notin> {''set'', ''map'', ''cmd''}
    \<and> (\<forall>a \<in> set args. fst a \<noteq> TokenSemicolon \<and> fst a \<noteq> TokenEOF)
    \<and> err (reading s rest) = None
    \<and> scanner p = reading s (Tok TokenIdent name # map (\<lambda>(t, x). Tok t x) args
                                @ Tok TokenSemicolon sc # rest)"
  then have loop: "callLoop [] (reading s (Tok TokenIdent name # map (\<lambda>(t, x). Tok t x) args
                                @ Tok TokenSemicolon sc # rest))
       = (map snd args, reading s (Tok TokenSemicolon sc # rest))"
    using callLoop_collect [of TokenIdent args "[]" s name sc rest] by simp
  show "parseExpr p = (Some (CallExpr name (map snd args)), p\<lparr>scanner := reading s rest\<rparr>)"
    using h by (subst parseExpr.simps) (simp add: loop adv_reading)
next
  show "parse (newParser eof ''open a b c;'') =
       (True, \<lparr>scanner = \<lparr>typ = TokenEOF, tok = eof, err = None, pending = [], eof_tok = eof\<rparr>,
               expr = Some (CallExpr ''open'' [''a'', ''b'', ''c'']), perr = None\<rparr>)"
    by code_simp
qed

theorem C6_call_witness:
  "(''open'' \<notin> {''set'', ''map'', ''cmd''}
    \<and> TokenIdent \<noteq> TokenSemicolon \<and> TokenIdent \<noteq> TokenEOF
    \<and> TokenColon \<noteq> TokenSemicolon \<and> TokenColon \<noteq> TokenEOF
    \<and> err (reading (newScanner ''EOF'' ''open a : c;'') []) = None
    \<and> scanner (newParser ''EOF'' ''open a : c;'')
        = reading (newScanner ''EOF'' ''open a : c;'')
            (Tok TokenIdent ''open''
             # map (\<lambda>(t, x). Tok t x) [(TokenIdent, ''a''), (TokenColon, '':''), (TokenIdent, ''c'')]
             @ Tok TokenSemicolon '';'' # []))
   \<and> parseExpr (newParser ''EOF'' ''open a : c;'')
        = (Some (CallExpr ''open'' [''a'', '':'', ''c'']),
           (newParser ''EOF'' ''open a : c;'')
             \<lparr>scanner := reading (newScanner ''EOF'' ''open a : c;'') []\<rparr>)"
proof -
  have h: "''open'' \<notin> {''set'', ''map'', ''cmd''}
    \<and> (\<forall>a \<in> set [(TokenIdent, ''a''), (TokenColon, '':''), (TokenIdent, ''c'')].
          fst a \<noteq> TokenSemicolon \<and> fst a \<noteq> TokenEOF)
    \<and> err (reading (newScanner ''EOF'' ''open a : c;'') []) = None
    \<and> scanner (newParser ''EOF'' ''open a : c;'')
        = reading (newScanner ''EOF'' ''open a : c;'')
            (Tok TokenIdent ''open''
             # map (\<lambda>(t, x). Tok t x) [(TokenIdent, ''a''), (TokenColon, '':''), (TokenIdent, ''c'')]
             @ Tok TokenSemicolon '';'' # [])"
    by code_simp
  have m: "map snd [(TokenIdent, ''a''), (TokenColon, '':''), (TokenIdent, ''c'')]
             = [''a'', '':'', ''c'']"
    by simp
  show ?thesis
    using C6_call [where eof = "''EOF''", THEN conjunct1, THEN mp, OF h] h
    unfolding m by simp
qed

text \<open>
  C7. After the call production and after the exec production: if the scanner has an
  error recorded at that point, \<open>parseExpr\<close> records the parser error \<open>parsing:\<close>
  followed by the scanner's error and returns \<open>nil\<close>; if it has none, the result is
  the \<open>CallExpr\<close> or the \<open>ExecExpr\<close>. In particular, for the block without its end
  \<open>$ {{ echo hi\<close> the scanner records an error and \<open>parse\<close> returns false, the
  parser's error set.
\<close>

theorem C7_lexical_error:
  "((typ (scanner p) = TokenIdent \<and> tok (scanner p) \<notin> {''set'', ''map'', ''cmd''}
     \<or> typ (scanner p) = TokenPrefix) \<longrightarrow>
    (case err (scanner (snd (parseExpr p))) of
       Some e \<Rightarrow> fst (parseExpr p) = None \<and> perr (snd (parseExpr p)) = Some (''parsing: '' @ e)
     | None \<Rightarrow> (\<exists>name args. fst (parseExpr p) = Some (CallExpr name args))
              \<or> (\<exists>pref body. fst (parseExpr p) = Some (ExecExpr pref body))))
   \<and> (\<exists>e. parse (newParser eof ''$ {{ echo hi'') =
        (False, \<lparr>scanner = \<lparr>typ = TokenEOF, tok = eof, err = Some e, pending = [], eof_tok = eof\<rparr>,
                 expr = None, perr = Some (''parsing: '' @ e)\<rparr>))"
proof (intro conjI impI)
  assume "typ (scanner p) = TokenIdent \<and> tok (scanner p) \<notin> {''set'', ''map'', ''cmd''}
     \<or> typ (scanner p) = TokenPrefix"
  then show "case err (scanner (snd (parseExpr p))) of
       Some e \<Rightarrow> fst (parseExpr p) = None \<and> perr (snd (parseExpr p)) = Some (''parsing: '' @ e)
     | None \<Rightarrow> (\<exists>name args. fst (parseExpr p) = Some (CallExpr name args))
              \<or> (\<exists>pref body. fst (parseExpr p) = Some (ExecExpr pref body))"
  proof (elim disjE conjE)
    assume a: "typ (scanner p) = TokenIdent" "tok (scanner p) \<notin> {''set'', ''map'', ''cmd''}"
    show ?thesis
      by (cases "err (adv (snd (callLoop [] (scanner p))))")
         (simp_all add: parseExpr_call [OF a] Let_def)
  next
    assume a: "typ (scanner p) = TokenPrefix"
    let ?s1 = "adv (scanner p)"
    show ?thesis
      by (cases "err (adv (adv (if typ ?s1 = TokenLBraces then adv (adv ?s1) else ?s1)))")
         (simp_all add: parseExpr_exec [OF a] Let_def)
  qed
next
  have "parse (newParser eof ''$ {{ echo hi'') =
        (False, \<lparr>scanner = \<lparr>typ = TokenEOF, tok = eof, err = Some ''unterminated block'',
                             pending = [], eof_tok = eof\<rparr>,
                 expr = None, perr = Some (''parsing: '' @ ''unterminated block'')\<rparr>)"
    by code_simp
  then show "\<exists>e. parse (newParser eof ''$ {{ echo hi'') =
        (False, \<lparr>scanner = \<lparr>typ = TokenEOF, tok = eof, err = Some e, pending = [], eof_tok = eof\<rparr>,
                 expr = None, perr = Some (''parsing: '' @ e)\<rparr>)"
    by blast
qed

theorem C7_lexical_error_witness:
  "typ (scanner (newParser ''EOF'' ''open a { b'')) = TokenIdent
   \<and> tok (scanner (newParser ''EOF'' ''open a { b'')) = ''open''
   \<and> err (scanner (snd (parseExpr (newParser ''EOF'' ''open a { b''))))
       = Some ''unexpected character''
   \<and> fst (parseExpr (newParser ''EOF'' ''open a { b'')) = None
   \<and> perr (snd (parseExpr (newParser ''EOF'' ''open a { b'')))
       = Some (''parsing: '' @ ''unexpected character'')
   \<and> typ (scanner (newParser ''EOF'' ''!{{ ls'')) = TokenPrefix
   \<and> err (scanner (snd (parseExpr (newParser ''EOF'' ''!{{ ls'')))) = Some ''unterminated block''
   \<and> fst (parseExpr (newParser ''EOF'' ''!{{ ls'')) = None
   \<and> perr (snd (parseExpr (newParser ''EOF'' ''!{{ ls'')))
       = Some (''parsing: '' @ ''unterminated block'')"
proof -
  have h: "typ (scanner (newParser ''EOF'' ''open a { b'')) = TokenIdent
    \<and> tok (scanner (newParser ''EOF'' ''open a { b'')) \<notin> {''set'', ''map'', ''cmd''}
    \<or> typ (scanner (newParser ''EOF'' ''open a { b'')) = TokenPrefix"
    by code_simp
  have e: "err (scanner (snd (parseExpr (newParser ''EOF'' ''open a { b''))))
            = Some ''unexpected character''"
    by code_simp
  have k: "typ (scanner (newParser ''EOF'' ''open a { b'')) = TokenIdent
    \<and> tok (scanner (newParser ''EOF'' ''open a { b'')) = ''open''"
    by code_simp
  have h': "typ (scanner (newParser ''EOF'' ''!{{ ls'')) = TokenIdent
    \<and> tok (scanner (newParser ''EOF'' ''!{{ ls'')) \<notin> {''set'', ''map'', ''cmd''}
    \<or> typ (scanner (newParser ''EOF'' ''!{{ ls'')) = TokenPrefix"
    by code_simp
  have e': "err (scanner (snd (parseExpr (newParser ''EOF'' ''!{{ ls''))))
            = Some ''unterminated block''"
    by code_simp
  have k': "typ (scanner (newParser ''EOF'' ''!{{ ls'')) = TokenPrefix"
    by code_simp
  show ?thesis
    using C7_lexical_error [where eof = "''EOF''", THEN conjunct1, THEN mp, OF h]
      C7_lexical_error [where eof = "''EOF''", THEN conjunct1, THEN mp, OF h'] k k'
    by (simp add: e e')
qed

text \<open>
  C9. A \<open>cmd\<close> statement whose body is an exec expression in line form: keyword,
  name, prefix, command text, newline token. The parser returns \<open>CmdExpr\<close> with the
  name and, as body, \<open>ExecExpr\<close> with the text of the prefix token and the command
  text. In particular \<open>cmd usage $du -sh .|less\<close> and a newline give the name
  \<open>usage\<close>, the prefix \<open>$\<close> and the text \<open>du -sh .|less\<close>.
\<close>

theorem C9_cmd_exec:
  "(tn \<noteq> TokenEOF \<and> err (reading s rest) = None
    \<and> scanner p = reading s (Tok TokenIdent ''cmd'' # Tok tn name # Tok TokenPrefix pref
                                # Tok TokenCommand body # Tok TokenSemicolon ''\<newline>'' # rest)
      \<longrightarrow> parseExpr p = (Some (CmdExpr name (Some (ExecExpr pref body))),
                         p\<lparr>scanner := reading s rest\<rparr>))
   \<and> parse (newParser eof ''cmd usage $du -sh .|less\<newline>'') =
       (True, \<lparr>scanner = \<lparr>typ = TokenEOF, tok = eof, err = None, pending = [], eof_tok = eof\<rparr>,
               expr = Some (CmdExpr ''usage'' (Some (ExecExpr ''$'' ''du -sh .|less''))),
               perr = None\<rparr>)"
proof (intro conjI impI)
  assume h: "tn \<noteq> TokenEOF \<and> err (reading s rest) = None
    \<and> scanner p = reading s (Tok TokenIdent ''cmd'' # Tok tn name # Tok TokenPrefix pref
                                # Tok TokenCommand body # Tok TokenSemicolon ''\<newline>'' # rest)"
  let ?q = "p\<lparr>scanner := reading s (Tok TokenPrefix pref # Tok TokenCommand body
                                       # Tok TokenSemicolon ''\<newline>'' # rest)\<rparr>"
  have inner: "parseExpr ?q = (Some (ExecExpr pref body), p\<lparr>scanner := reading s rest\<rparr>)"
    using h by (subst parseExpr.simps) (simp add: adv_reading)
  show "parseExpr p = (Some (CmdExpr name (Some (ExecExpr pref body))),
                       p\<lparr>scanner := reading s rest\<rparr>)"
    using h by (subst parseExpr.simps) (simp add: adv_reading inner)
next
  show "parse (newParser eof ''cmd usage $du -sh .|less\<newline>'') =
       (True, \<lparr>scanner = \<lparr>typ = TokenEOF, tok = eof, err = None, pending = [], eof_tok = eof\<rparr>,
               expr = Some (CmdExpr ''usage'' (Some (ExecExpr ''$'' ''du -sh .|less''))),
               perr = None\<rparr>)"
    by code_simp
qed

theorem C9_cmd_exec_witness:
  "(TokenIdent \<noteq> TokenEOF
    \<and> err (reading (newScanner ''EOF'' ''cmd usage $du -sh .|less\<newline>'') []) = None
    \<and> scanner (newParser ''EOF'' ''cmd usage $du -sh .|less\<newline>'')
        = reading (newScanner ''EOF'' ''cmd usage $du -sh .|less\<newline>'')
           (Tok TokenIdent ''cmd'' # Tok TokenIdent ''usage'' # Tok TokenPrefix ''$''
            # Tok TokenCommand ''du -sh .|less'' # Tok TokenSemicolon ''\<newline>'' # []))
   \<and> parseExpr (newParser ''EOF'' ''cmd usage $du -sh .|less\<newline>'')
        = (Some (CmdExpr ''usage'' (Some (ExecExpr ''$'' ''du -sh .|less''))),
           (newParser ''EOF'' ''cmd usage $du -sh .|less\<newline>'')
             \<lparr>scanner := reading (newScanner ''EOF'' ''cmd usage $du -sh .|less\<newline>'') []\<rparr>)"
proof -
  have h: "TokenIdent \<noteq> TokenEOF
    \<and> err (reading (newScanner ''EOF'' ''cmd usage $du -sh .|less\<newline>'') []) = None
    \<and> scanner (newParser ''EOF'' ''cmd usage $du -sh .|less\<newline>'')
        = reading (newScanner ''EOF'' ''cmd usage $du -sh .|less\<newline>'')
           (Tok TokenIdent ''cmd'' # Tok TokenIdent ''usage'' # Tok TokenPrefix ''$''
            # Tok TokenCommand ''du -sh .|less'' # Tok TokenSemicolon ''\<newline>'' # [])"
    by code_simp
  show ?thesis
    using C9_cmd_exec [where eof = "''EOF''", THEN conjunct1, THEN mp, OF h] h
    by blast
qed

section \<open>The list production\<close>

lemma run_nonempty: "run brace p es q \<Longrightarrow> es \<noteq> []"
  by (induction rule: run.induct) simp_all

lemma listLoop_run:
  "(case listLoop brace acc p of
      (Some es, q) \<Rightarrow> \<exists>new. es = acc @ new \<and> run brace p new q
    | (None, q) \<Rightarrow> broken brace p q)"
proof (induction brace acc p rule: parseExpr_listLoop.induct(2) [where P = "\<lambda>_. True"])
  case (1 p)
  show ?case by simp
next
  case (2 brace exprs p)
  obtain r p' where r: "parseExpr p = (r, p')" by (cases "parseExpr p")
  show ?case
  proof (cases r)
    case None
    then show ?thesis
      using r by (subst listLoop.simps) (simp add: broken_now)
  next
    case (Some e)
    show ?thesis
    proof (cases "stops brace p'")
      case True
      then have "listLoop brace exprs p = (Some (exprs @ [e]), p')"
        using r Some by (subst listLoop.simps) (simp add: stops_def)
      moreover have "run brace p [e] p'"
        using r Some True by (simp add: run_last)
      ultimately show ?thesis by auto
    next
      case False
      then have eq: "listLoop brace exprs p = listLoop brace (exprs @ [e]) p'"
        using r Some by (subst listLoop.simps) (simp add: stops_def)
      have ih: "case listLoop brace (exprs @ [e]) p' of
                  (Some es, q) \<Rightarrow> \<exists>new. es = (exprs @ [e]) @ new \<and> run brace p' new q
                | (None, q) \<Rightarrow> broken brace p' q"
        using "2.IH" [OF r [symmetric] Some refl] False by (simp add: stops_def)
      show ?thesis
      proof (cases "listLoop brace (exprs @ [e]) p'")
        case (Pair res q)
        show ?thesis
        proof (cases res)
          case None
          then show ?thesis
            using ih Pair eq r Some False by (auto intro: broken_later)
        next
          case (Some es)
          then obtain new where "es = (exprs @ [e]) @ new" "run brace p' new q"
            using ih Pair by auto
          then have "es = exprs @ (e # new)" "run brace p (e # new) q"
            using r \<open>r = Some e\<close> False by (auto intro: run_more)
          then show ?thesis
            using Pair eq Some by auto
        qed
      qed
    qed
  qed
qed

lemma broken_listLoop: "broken brace p q \<Longrightarrow> listLoop brace acc p = (None, q)"
proof (induction arbitrary: acc rule: broken.induct)
  case (broken_now p p' brace)
  then show ?case by (subst listLoop.simps) simp
next
  case (broken_later p e p' brace p'')
  then show ?case by (subst listLoop.simps) (simp add: stops_def)
qed

lemma parseExpr_list:
  assumes "typ (scanner p) = TokenColon"
    and "brace = (typ (adv (scanner p)) = TokenLBraces)"
    and "p0 = p\<lparr>scanner := (if brace then adv (adv (scanner p)) else adv (scanner p))\<rparr>"
  shows "parseExpr p =
     (case listLoop brace [] p0 of
        (None, q') \<Rightarrow> (None, q')
      | (Some es, q') \<Rightarrow>
          (Some (ListExpr es),
           q'\<lparr>scanner := (if brace then adv (adv (scanner q')) else adv (scanner q'))\<rparr>))"
  using assms by (subst parseExpr.simps) (auto simp: Let_def split: prod.splits option.splits)

text \<open>
  C8. A list (the current token is a colon; \<open>brace\<close> tells the form, \<open>p0\<close> is the state
  in which the loop starts). Whenever a call of \<open>parseExpr\<close> in the loop returns
  \<open>nil\<close>, the list production returns \<open>nil\<close>; and that is the only way it does. When
  it returns a node, the node is a \<open>ListExpr\<close> whose body is not empty and consists
  of the results of the successive calls, in their order.
\<close>

theorem C8_list:
  "typ (scanner p) = TokenColon \<Longrightarrow>
   (let brace = (typ (adv (scanner p)) = TokenLBraces);
        p0 = p\<lparr>scanner := (if brace then adv (adv (scanner p)) else adv (scanner p))\<rparr>
    in (\<forall>q. broken brace p0 q \<longrightarrow> parseExpr p = (None, q))
       \<and> (case parseExpr p of
            (Some e, q) \<Rightarrow>
              \<exists>es q'. e = ListExpr es \<and> es \<noteq> [] \<and> run brace p0 es q'
                \<and> q = q'\<lparr>scanner := (if brace then adv (adv (scanner q'))
                                       else adv (scanner q'))\<rparr>
          | (None, q) \<Rightarrow> broken brace p0 q))"
proof -
  assume a: "typ (scanner p) = TokenColon"
  define brace where "brace = (typ (adv (scanner p)) = TokenLBraces)"
  define p0 where "p0 = p\<lparr>scanner := (if brace then adv (adv (scanner p)) else adv (scanner p))\<rparr>"
  note pe = parseExpr_list [OF a brace_def p0_def]
  have fail: "parseExpr p = (None, q)" if "broken brace p0 q" for q
    using broken_listLoop [OF that, of "[]"] by (simp add: pe)
  have res: "case parseExpr p of
            (Some e, q) \<Rightarrow>
              \<exists>es q'. e = ListExpr es \<and> es \<noteq> [] \<and> run brace p0 es q'
                \<and> q = q'\<lparr>scanner := (if brace then adv (adv (scanner q'))
                                       else adv (scanner q'))\<rparr>
          | (None, q) \<Rightarrow> broken brace p0 q"
  proof (cases "listLoop brace [] p0")
    case (Pair res q')
    show ?thesis
    proof (cases res)
      case None
      then show ?thesis
        using listLoop_run [where brace = brace and acc = "[]" and p = p0] Pair by (simp add: pe)
    next
      case (Some es)
      then have "run brace p0 es q'"
        using listLoop_run [where brace = brace and acc = "[]" and p = p0] Pair by simp
      then show ?thesis
        using Pair Some run_nonempty [of brace p0 es q'] by (auto simp: pe)
    qed
  qed
  show ?thesis
    using fail res unfolding Let_def brace_def [symmetric] p0_def [symmetric] by blast
qed

theorem C8_list_witness:
  "typ (scanner (newParser ''EOF'' '':{{ set hidden; set preview; }};'')) = TokenColon
   \<and> (\<exists>es q'. run True ((newParser ''EOF'' '':{{ set hidden; set preview; }};'')
                 \<lparr>scanner := adv (adv (scanner (newParser ''EOF'' '':{{ set hidden; set preview; }};'')))\<rparr>)
                es q'
        \<and> es \<noteq> []
        \<and> fst (parseExpr (newParser ''EOF'' '':{{ set hidden; set preview; }};''))
            = Some (ListExpr es)
        \<and> es = [SetExpr ''hidden'' [], SetExpr ''preview'' []])"
proof -
  let ?p = "newParser ''EOF'' '':{{ set hidden; set preview; }};''"
  have h: "typ (scanner ?p) = TokenColon"
    by code_simp
  have b: "(typ (adv (scanner ?p)) = TokenLBraces) = True"
    by code_simp
  have r: "fst (parseExpr ?p) = Some (ListExpr [SetExpr ''hidden'' [], SetExpr ''preview'' []])"
    by code_simp
  show ?thesis
    using C8_list [OF h] h r unfolding Let_def b
    by (auto split: prod.splits option.splits)
qed

section \<open>The grammar and the printed text\<close>

lemma gExpr_starts:
  "gExpr ts e \<Longrightarrow> starts ts"
  "gSeq tss es \<Longrightarrow> es \<noteq> [] \<longrightarrow> starts tss"
proof (induction rule: gExpr_gSeq.inducts)
  case (gCons ts e tss es)
  then show ?case by (auto simp: starts_def)
qed (auto simp: starts_def)

lemma starts_reading:
  assumes "starts ts"
  shows "err (reading s (ts @ rest)) = err s"
    and "typ (reading s (ts @ rest)) \<in> {TokenIdent, TokenColon, TokenPrefix}"
  using assms by (auto simp: starts_def)

lemma parse_grammar:
  "gExpr ts e \<Longrightarrow>
     (\<forall>s rest p. err (reading s rest) = None \<longrightarrow>
        parseExpr (p\<lparr>scanner := reading s (ts @ rest)\<rparr>) = (Some e, p\<lparr>scanner := reading s rest\<rparr>))"
  "gSeq tss es \<Longrightarrow>
     (\<forall>s rest p acc rb. es \<noteq> [] \<longrightarrow> err s = None \<longrightarrow>
        listLoop True acc (p\<lparr>scanner := reading s (tss @ Tok TokenRBraces rb # rest)\<rparr>)
          = (Some (acc @ es), p\<lparr>scanner := reading s (Tok TokenRBraces rb # rest)\<rparr>))"
proof (induction rule: gExpr_gSeq.inducts)
  case (gSet opt sc)
  show ?case by (subst parseExpr.simps) (simp add: adv_reading)
next
  case (gSetVal opt val sc)
  show ?case by (subst parseExpr.simps) (simp add: adv_reading)
next
  case (gMap ts e keys)
  then show ?case by (subst parseExpr.simps) (simp add: adv_reading)
next
  case (gCmd ts e name)
  then show ?case by (subst parseExpr.simps) (simp add: adv_reading)
next
  case (gCall name args sc)
  show ?case
  proof (intro allI impI)
    fix s :: Scanner and rest p
    assume e: "err (reading s rest) = None"
    have m: "map (Tok TokenIdent) args = map (\<lambda>(t, x). Tok t x) (map (Pair TokenIdent) args)"
      by simp
    have loop: "callLoop [] (reading s (Tok TokenIdent name # map (Tok TokenIdent) args
                                @ Tok TokenSemicolon sc # rest))
       = (args, reading s (Tok TokenSemicolon sc # rest))"
      unfolding m
      using callLoop_collect [of TokenIdent "map (Pair TokenIdent) args" "[]" s name sc rest]
      by (simp add: comp_def)
    show "parseExpr (p\<lparr>scanner := reading s ((Tok TokenIdent name # map (Tok TokenIdent) args
                                @ [Tok TokenSemicolon sc]) @ rest)\<rparr>)
          = (Some (CallExpr name args), p\<lparr>scanner := reading s rest\<rparr>)"
      using gCall e by (subst parseExpr.simps) (simp add: loop adv_reading)
  qed
next
  case (gExecLine pref cmdtext)
  show ?case by (subst parseExpr.simps) (simp add: adv_reading)
next
  case (gExecBlock pref lb cmdtext rb sc)
  show ?case by (subst parseExpr.simps) (simp add: adv_reading)
next
  case (gListBlock ts es c lb rb sc)
  show ?case
  proof (intro allI impI)
    fix s :: Scanner and rest p
    assume e: "err (reading s rest) = None"
    then have es: "err s = None" by (rule err_reading_None)
    have loop: "listLoop True [] (p\<lparr>scanner := reading s (ts @ Tok TokenRBraces rb # Tok TokenSemicolon sc # rest)\<rparr>)
          = (Some es, p\<lparr>scanner := reading s (Tok TokenRBraces rb # Tok TokenSemicolon sc # rest)\<rparr>)"
      using gListBlock.IH gListBlock.hyps(2) es by simp
    show "parseExpr (p\<lparr>scanner := reading s ((Tok TokenColon c # Tok TokenLBraces lb # ts
                      @ [Tok TokenRBraces rb, Tok TokenSemicolon sc]) @ rest)\<rparr>)
          = (Some (ListExpr es), p\<lparr>scanner := reading s rest\<rparr>)"
      by (subst parseExpr.simps) (simp add: adv_reading loop)
  qed
next
  case gNil
  show ?case by simp
next
  case (gCons ts e tss es)
  show ?case
  proof (intro allI impI)
    fix s :: Scanner and rest p acc rb
    assume "e # es \<noteq> []" and es: "err s = None"
    let ?rest = "tss @ Tok TokenRBraces rb # rest"
    have "err (reading s ?rest) = None"
    proof (cases "es = []")
      case True
      with gCons.hyps(2) have "tss = []" by (auto elim: gSeq.cases)
      then show ?thesis using es by simp
    next
      case False
      then show ?thesis
        using starts_reading(1) [of tss s] gExpr_starts(2) [OF gCons.hyps(2)] es by simp
    qed
    then have inner: "parseExpr (p\<lparr>scanner := reading s (ts @ ?rest)\<rparr>)
        = (Some e, p\<lparr>scanner := reading s ?rest\<rparr>)"
      using gCons.IH(1) by simp
    show "listLoop True acc (p\<lparr>scanner := reading s ((ts @ tss) @ Tok TokenRBraces rb # rest)\<rparr>)
          = (Some (acc @ e # es), p\<lparr>scanner := reading s (Tok TokenRBraces rb # rest)\<rparr>)"
    proof (cases "es = []")
      case True
      with gCons.hyps(2) have "tss = []" by (auto elim: gSeq.cases)
      then show ?thesis
        using True inner by (subst listLoop.simps) simp
    next
      case False
      then have "typ (reading s ?rest) \<noteq> TokenRBraces"
        using starts_reading(2) [of tss s "Tok TokenRBraces rb # rest"]
          gExpr_starts(2) [OF gCons.hyps(2)] by auto
      moreover have "listLoop True (acc @ [e]) (p\<lparr>scanner := reading s ?rest\<rparr>)
          = (Some ((acc @ [e]) @ es), p\<lparr>scanner := reading s (Tok TokenRBraces rb # rest)\<rparr>)"
        using gCons.IH(2) False es by blast
      ultimately show ?thesis
        using inner by (subst listLoop.simps) simp
    qed
  qed
qed

lemma lex_word:
  assumes "word w" and "\<not> inIdent c" and "m = AtExpr \<longrightarrow> \<not> isPrefix (hd w)"
  shows "lex m (w @ c # rest) = Tok TokenIdent w # lex (next_mode m w) (c # rest)"
proof -
  from assms(1) obtain a w' where w: "w = a # w'" by (cases w) (auto simp: word_def)
  have a: "\<not> isSpace a" "a \<noteq> CHR '';''" "a \<noteq> CHR ''{''" "a \<noteq> CHR ''}''" "a \<noteq> CHR '':''"
    using assms(1) by (auto simp: word_def w inIdent_def)
  have pm: "(isPrefix a \<and> m = AtExpr) = False" using assms(3) by (auto simp: w)
  have w': "\<forall>x \<in> set w'. inIdent x" using assms(1) by (simp add: word_def w)
  have t: "takeWhile inIdent (w' @ c # rest) = w'"
    using w' assms(2) by (simp add: takeWhile_append2)
  have d: "dropWhile inIdent (w' @ c # rest) = c # rest"
    using w' assms(2) by (simp add: dropWhile_append2)
  have "lex m (a # w' @ c # rest)
      = Tok TokenIdent (a # w') # lex (next_mode m (a # w')) (c # rest)"
    by (subst lex.simps(2)) (simp only: a pm t d if_False)
  then show ?thesis by (simp add: w)
qed

lemma lex_word_end:
  assumes "word w" and "m = AtExpr \<longrightarrow> \<not> isPrefix (hd w)"
  shows "lex m w = [Tok TokenIdent w]"
proof -
  from assms(1) obtain a w' where w: "w = a # w'" by (cases w) (auto simp: word_def)
  have a: "\<not> isSpace a" "a \<noteq> CHR '';''" "a \<noteq> CHR ''{''" "a \<noteq> CHR ''}''" "a \<noteq> CHR '':''"
    using assms(1) by (auto simp: word_def w inIdent_def)
  have pm: "(isPrefix a \<and> m = AtExpr) = False" using assms(2) by (auto simp: w)
  have w': "\<forall>x \<in> set w'. inIdent x" using assms(1) by (simp add: word_def w)
  have tw: "takeWhile inIdent w' = w'" "dropWhile inIdent w' = []"
    using w' by simp_all
  have "lex m (a # w') = [Tok TokenIdent (a # w')]"
    by (subst lex.simps(2)) (simp only: a pm tw if_False lex.simps(1))
  then show ?thesis by (simp add: w)
qed

lemma not_inIdent [simp]: "\<not> inIdent CHR '' ''" "\<not> inIdent CHR '';''"
  by (simp_all add: inIdent_def isSpace_def)

lemma lex_space [simp]: "lex m (CHR '' '' # rest) = lex m rest"
  by (simp add: isSpace_def lex.simps)

lemma lex_semi [simp]: "lex m (CHR '';'' # rest) = Tok TokenSemicolon '';'' # lex AtExpr rest"
  by (simp add: isSpace_def lex.simps)

lemma word_kw: "word ''set''" "word ''map''" "word ''cmd''"
  by (simp_all add: word_def inIdent_def isSpace_def)

lemma lex_kw:
  "lex AtExpr (''set '' @ rest) = Tok TokenIdent ''set'' # lex InArgs rest"
  "lex AtExpr (''map '' @ rest) = Tok TokenIdent ''map'' # lex AtName rest"
  "lex AtExpr (''cmd '' @ rest) = Tok TokenIdent ''cmd'' # lex AtName rest"
  using lex_word [OF word_kw(1), of "CHR '' ''" AtExpr rest]
    lex_word [OF word_kw(2), of "CHR '' ''" AtExpr rest]
    lex_word [OF word_kw(3), of "CHR '' ''" AtExpr rest]
  by (simp_all add: isPrefix_def)

lemma lex_open:
  "lex m ('':{{ '' @ rest) = Tok TokenColon '':'' # Tok TokenLBraces ''{{'' # lex AtExpr rest"
  by (simp add: isSpace_def lex.simps)

lemma lex_close: "lex m (''}}'' @ rest) = Tok TokenRBraces ''}}'' # lex AtExpr rest"
  by (simp add: isSpace_def lex.simps)

lemma lex_elems:
  assumes "\<forall>e \<in> set es. \<exists>ts. gExpr ts e
             \<and> (\<forall>rest. lex AtExpr (String_Expr e @ ''; '' @ rest) = ts @ lex AtExpr rest)"
  shows "\<exists>tss. gSeq tss es
          \<and> (\<forall>rest. lex AtExpr (concat (map (\<lambda>e. String_Expr e @ ''; '') es) @ rest)
                     = tss @ lex AtExpr rest)"
  using assms
proof (induction es)
  case Nil
  show ?case using gNil by auto
next
  case (Cons e es)
  from Cons.prems obtain ts where
    ts: "gExpr ts e" "\<And>rest. lex AtExpr (String_Expr e @ ''; '' @ rest) = ts @ lex AtExpr rest"
    by (metis list.set_intros(1))
  from Cons obtain tss where
    tss: "gSeq tss es"
      "\<And>rest. lex AtExpr (concat (map (\<lambda>e. String_Expr e @ ''; '') es) @ rest)
               = tss @ lex AtExpr rest"
    by (metis list.set_intros(2))
  have "lex AtExpr (concat (map (\<lambda>e. String_Expr e @ ''; '') (e # es)) @ rest)
          = (ts @ tss) @ lex AtExpr rest"
    for rest
    using ts(2) [of "concat (map (\<lambda>e. String_Expr e @ ''; '') es) @ rest"] tss(2) [of rest]
    by simp
  then show ?case using gCons [OF ts(1) tss(1)] by blast
qed

lemma lex_in_list:
  "in_list e \<Longrightarrow>
     \<exists>ts. gExpr ts e
       \<and> (\<forall>rest. lex AtExpr (String_Expr e @ ''; '' @ rest) = ts @ lex AtExpr rest)"
proof (induction e)
  case (SetExpr opt val)
  then have o: "word opt" by simp
  show ?case
  proof (cases "val = []")
    case True
    have "lex AtExpr (String_Expr (SetExpr opt val) @ ''; '' @ rest)
        = [Tok TokenIdent ''set'', Tok TokenIdent opt, Tok TokenSemicolon '';'']
          @ lex AtExpr rest" for rest
      using lex_kw(1) [of "opt @ '' ; '' @ rest"]
        lex_word [OF o, of "CHR '' ''" InArgs "''; '' @ rest"] True
      by simp
    then show ?thesis using True gSet [of opt "'';''"] by blast
  next
    case False
    with SetExpr have v: "word val" by simp
    have "lex AtExpr (String_Expr (SetExpr opt val) @ ''; '' @ rest)
        = [Tok TokenIdent ''set'', Tok TokenIdent opt, Tok TokenIdent val, Tok TokenSemicolon '';'']
          @ lex AtExpr rest" for rest
      using lex_kw(1) [of "opt @ '' '' @ val @ ''; '' @ rest"]
        lex_word [OF o, of "CHR '' ''" InArgs "val @ ''; '' @ rest"]
        lex_word [OF v, of "CHR '';''" InArgs "'' '' @ rest"]
      by simp
    then show ?thesis using gSetVal [of opt val "'';''"] by blast
  qed
next
  case (MapExpr keys b)
  then obtain x where b: "b = Some x" and k: "word keys" and x: "in_list x"
    by (cases b) auto
  from MapExpr.IH [of x] b x obtain ts where
    ts: "gExpr ts x"
      "\<And>rest. lex AtExpr (String_Expr x @ ''; '' @ rest) = ts @ lex AtExpr rest" by auto
  have "lex AtExpr (String_Expr (MapExpr keys b) @ ''; '' @ rest)
        = (Tok TokenIdent ''map'' # Tok TokenIdent keys # ts) @ lex AtExpr rest" for rest
    using lex_kw(2) [of "keys @ '' '' @ String_Expr x @ ''; '' @ rest"]
      lex_word [OF k, of "CHR '' ''" AtName "String_Expr x @ ''; '' @ rest"] ts(2) [of rest]
    by (simp add: b)
  then show ?case using gMap [OF ts(1), of keys] b by blast
next
  case (CmdExpr name b)
  then obtain x where b: "b = Some x" and k: "word name" and x: "in_list x"
    by (cases b) auto
  from CmdExpr.IH [of x] b x obtain ts where
    ts: "gExpr ts x"
      "\<And>rest. lex AtExpr (String_Expr x @ ''; '' @ rest) = ts @ lex AtExpr rest" by auto
  have "lex AtExpr (String_Expr (CmdExpr name b) @ ''; '' @ rest)
        = (Tok TokenIdent ''cmd'' # Tok TokenIdent name # ts) @ lex AtExpr rest" for rest
    using lex_kw(3) [of "name @ '' '' @ String_Expr x @ ''; '' @ rest"]
      lex_word [OF k, of "CHR '' ''" AtName "String_Expr x @ ''; '' @ rest"] ts(2) [of rest]
    by (simp add: b)
  then show ?case using gCmd [OF ts(1), of name] b by blast
next
  case (CallExpr name args)
  then show ?case by simp
next
  case (ExecExpr pref b)
  then show ?case by simp
next
  case (ListExpr es)
  then have ne: "es \<noteq> []" and all: "\<forall>e \<in> set es. in_list e" by auto
  have "\<exists>tss. gSeq tss es
          \<and> (\<forall>rest. lex AtExpr (concat (map (\<lambda>e. String_Expr e @ ''; '') es) @ rest)
                     = tss @ lex AtExpr rest)"
    using ListExpr.IH all by (intro lex_elems) blast
  then obtain tss where
    tss: "gSeq tss es"
      "\<And>rest. lex AtExpr (concat (map (\<lambda>e. String_Expr e @ ''; '') es) @ rest)
               = tss @ lex AtExpr rest"
    by auto
  have "lex AtExpr (String_Expr (ListExpr es) @ ''; '' @ rest)
      = (Tok TokenColon '':'' # Tok TokenLBraces ''{{'' # tss
           @ [Tok TokenRBraces ''}}'', Tok TokenSemicolon '';'']) @ lex AtExpr rest" for rest
    using lex_open [of AtExpr "concat (map (\<lambda>e. String_Expr e @ ''; '') es) @ ''}}; '' @ rest"]
      tss(2) [of "''}}; '' @ rest"] lex_close [of AtExpr "''; '' @ rest"]
    by (simp add: foldl_buf)
  then show ?case
    using gListBlock [OF tss(1) ne, of "'':''" "''{{''" "''}}''" "'';''"] by blast
qed

lemma adv_reading_Nil: "adv (reading s []) = reading s []"
  by (simp add: reading_def adv_def scan_def at_eof_def)

lemma lex_seq:
  assumes "\<forall>e \<in> set es. in_list e"
  shows "\<exists>tss. gSeq tss es
          \<and> (\<forall>rest. lex AtExpr (concat (map (\<lambda>e. String_Expr e @ ''; '') es) @ rest)
                     = tss @ lex AtExpr rest)"
  using assms lex_in_list by (intro lex_elems) blast

lemma parse_at_top:
  "at_top e \<Longrightarrow> err s = None \<Longrightarrow>
   parseExpr (p\<lparr>scanner := reading s (lex AtExpr (String_Expr e))\<rparr>)
     = (Some e, p\<lparr>scanner := reading s []\<rparr>)"
proof (induction e arbitrary: p)
  case (SetExpr opt val)
  then have o: "word opt" and v: "word val" by simp_all
  have l: "lex AtExpr (String_Expr (SetExpr opt val))
        = [Tok TokenIdent ''set'', Tok TokenIdent opt, Tok TokenIdent val]"
    using lex_kw(1) [of "opt @ '' '' @ val"]
      lex_word [OF o, of "CHR '' ''" InArgs "val"] lex_word_end [OF v, of InArgs]
    by simp
  show ?case
    unfolding l by (subst parseExpr.simps) (simp add: adv_reading adv_reading_Nil)
next
  case (MapExpr keys b)
  then obtain x where b: "b = Some x" and k: "word keys" and x: "at_top x"
    by (cases b) auto
  have l: "lex AtExpr (String_Expr (MapExpr keys b))
        = Tok TokenIdent ''map'' # Tok TokenIdent keys # lex AtExpr (String_Expr x)"
    using lex_kw(2) [of "keys @ '' '' @ String_Expr x"]
      lex_word [OF k, of "CHR '' ''" AtName "String_Expr x"]
    by (simp add: b)
  have ih: "parseExpr (p\<lparr>scanner := reading s (lex AtExpr (String_Expr x))\<rparr>)
      = (Some x, p\<lparr>scanner := reading s []\<rparr>)"
    using MapExpr.IH [of x p] b x MapExpr.prems(2) by simp
  show ?case
    unfolding l by (subst parseExpr.simps) (simp add: adv_reading ih b)
next
  case (CmdExpr name b)
  then obtain x where b: "b = Some x" and k: "word name" and x: "at_top x"
    by (cases b) auto
  have l: "lex AtExpr (String_Expr (CmdExpr name b))
        = Tok TokenIdent ''cmd'' # Tok TokenIdent name # lex AtExpr (String_Expr x)"
    using lex_kw(3) [of "name @ '' '' @ String_Expr x"]
      lex_word [OF k, of "CHR '' ''" AtName "String_Expr x"]
    by (simp add: b)
  have ih: "parseExpr (p\<lparr>scanner := reading s (lex AtExpr (String_Expr x))\<rparr>)
      = (Some x, p\<lparr>scanner := reading s []\<rparr>)"
    using CmdExpr.IH [of x p] b x CmdExpr.prems(2) by simp
  show ?case
    unfolding l by (subst parseExpr.simps) (simp add: adv_reading ih b)
next
  case (CallExpr name args)
  then show ?case by simp
next
  case (ExecExpr pref b)
  then show ?case by simp
next
  case (ListExpr es)
  then have ne: "es \<noteq> []" and all: "\<forall>e \<in> set es. in_list e" by auto
  from lex_seq [OF all] obtain tss where
    tss: "gSeq tss es"
      "\<And>rest. lex AtExpr (concat (map (\<lambda>e. String_Expr e @ ''; '') es) @ rest)
               = tss @ lex AtExpr rest"
    by auto
  have l: "lex AtExpr (String_Expr (ListExpr es))
      = Tok TokenColon '':'' # Tok TokenLBraces ''{{'' # tss @ [Tok TokenRBraces ''}}'']"
    using lex_open [of AtExpr "concat (map (\<lambda>e. String_Expr e @ ''; '') es) @ ''}}''"]
      tss(2) [of "''}}''"] lex_close [of AtExpr "[]"]
    by (simp add: foldl_buf lex.simps(1))
  have loop: "listLoop True [] (p\<lparr>scanner := reading s (tss @ [Tok TokenRBraces ''}}''])\<rparr>)
      = (Some es, p\<lparr>scanner := reading s [Tok TokenRBraces ''}}'']\<rparr>)"
    using parse_grammar(2) [OF tss(1)] ne ListExpr.prems(2) by simp
  show ?case
    unfolding l by (subst parseExpr.simps) (simp add: adv_reading adv_reading_Nil loop)
qed

lemma newParser_reading:
  "newParser eof r
     = \<lparr>scanner = reading (newScanner eof r) (lex AtExpr r), expr = None, perr = None\<rparr>"
  by (simp add: newParser_def reading_def newScanner_def)

lemma reading_Nil_new:
  "reading (newScanner eof r) []
     = \<lparr>typ = TokenEOF, tok = eof, err = None, pending = [], eof_tok = eof\<rparr>"
  by (simp add: reading_def adv_def scan_def at_eof_def newScanner_def)

lemma parse_text:
  assumes "lex AtExpr r = ts @ rest" and "gExpr ts e"
    and "err (reading (newScanner eof r) rest) = None"
  shows "parse (newParser eof r)
     = (True, \<lparr>scanner = reading (newScanner eof r) rest, expr = Some e, perr = None\<rparr>)"
proof -
  let ?s = "newScanner eof r"
  let ?p = "\<lparr>scanner = ?s, expr = None, perr = None\<rparr>"
  have "newParser eof r = ?p\<lparr>scanner := reading ?s (ts @ rest)\<rparr>"
    by (simp add: newParser_reading assms(1))
  moreover have "parseExpr (?p\<lparr>scanner := reading ?s (ts @ rest)\<rparr>)
      = (Some e, ?p\<lparr>scanner := reading ?s rest\<rparr>)"
    using parse_grammar(1) [OF assms(2)] assms(3) by blast
  ultimately show ?thesis
    by (simp add: parse_def)
qed

lemma roundtrip:
  assumes "at_top e"
  shows "parse (newParser eof (String_Expr e)) =
       (True, \<lparr>scanner = \<lparr>typ = TokenEOF, tok = eof, err = None, pending = [], eof_tok = eof\<rparr>,
               expr = Some e, perr = None\<rparr>)"
proof -
  let ?s = "newScanner eof (String_Expr e)"
  let ?p = "\<lparr>scanner = ?s, expr = None, perr = None\<rparr>"
  have e: "err ?s = None" by (simp add: newScanner_def)
  have "newParser eof (String_Expr e) = ?p\<lparr>scanner := reading ?s (lex AtExpr (String_Expr e))\<rparr>"
    by (simp add: newParser_reading)
  then have "parseExpr (newParser eof (String_Expr e)) = (Some e, ?p\<lparr>scanner := reading ?s []\<rparr>)"
    using parse_at_top [OF assms e, of ?p] by simp
  then show ?thesis
    by (simp add: parse_def reading_Nil_new)
qed

text \<open>
  C2, as amended. For every input text whose tokens begin with an \<open>Expr\<close> of the
  grammar (lists in brace form with at least one element; the line form of a list is
  left out), where the scanner has recorded no error when it stands on what follows,
  \<open>parse\<close> succeeds, retains the tree of that \<open>Expr\<close> and stands on what follows it.
  The text of \<open>String\<close> is read back to the same tree for the trees \<open>at_top\<close>:
  those built from \<open>set\<close> with a value, \<open>map\<close>, \<open>cmd\<close> and lists of such
  elements (in a list also \<open>set\<close> without a value), all names being words.
\<close>

theorem C2_grammar_roundtrip:
  "(lex AtExpr r = ts @ rest \<and> gExpr ts e \<and> err (reading (newScanner eof r) rest) = None
      \<longrightarrow> parse (newParser eof r)
            = (True, \<lparr>scanner = reading (newScanner eof r) rest, expr = Some e, perr = None\<rparr>))
   \<and> (at_top e'
      \<longrightarrow> parse (newParser eof (String_Expr e')) =
           (True, \<lparr>scanner = \<lparr>typ = TokenEOF, tok = eof, err = None, pending = [], eof_tok = eof\<rparr>,
                   expr = Some e', perr = None\<rparr>))"
proof (intro conjI impI)
  assume "lex AtExpr r = ts @ rest \<and> gExpr ts e \<and> err (reading (newScanner eof r) rest) = None"
  then show "parse (newParser eof r)
      = (True, \<lparr>scanner = reading (newScanner eof r) rest, expr = Some e, perr = None\<rparr>)"
    using parse_text [of r ts rest e eof] by blast
next
  assume "at_top e'"
  then show "parse (newParser eof (String_Expr e')) =
           (True, \<lparr>scanner = \<lparr>typ = TokenEOF, tok = eof, err = None, pending = [], eof_tok = eof\<rparr>,
                   expr = Some e', perr = None\<rparr>)"
    by (rule roundtrip)
qed

theorem C2_grammar_roundtrip_witness:
  "parse (newParser ''EOF'' ''map gg top; cd /tmp;'')
     = (True, \<lparr>scanner = \<lparr>typ = TokenIdent, tok = ''cd'', err = None,
                           pending = [Tok TokenIdent ''/tmp'', Tok TokenSemicolon '';''],
                           eof_tok = ''EOF''\<rparr>,
               expr = Some (MapExpr ''gg'' (Some (CallExpr ''top'' []))), perr = None\<rparr>)
   \<and> String_Expr (ListExpr [SetExpr ''hidden'' [], MapExpr ''gg'' (Some (SetExpr ''shell'' ''/bin/sh''))])
     = '':{{ set hidden ; map gg set shell /bin/sh; }}''
   \<and> parse (newParser ''EOF'' '':{{ set hidden ; map gg set shell /bin/sh; }}'')
     = (True, \<lparr>scanner = \<lparr>typ = TokenEOF, tok = ''EOF'', err = None, pending = [], eof_tok = ''EOF''\<rparr>,
               expr = Some (ListExpr [SetExpr ''hidden'' [],
                                      MapExpr ''gg'' (Some (SetExpr ''shell'' ''/bin/sh''))]),
               perr = None\<rparr>)"
proof -
  let ?r = "''map gg top; cd /tmp;''"
  let ?ts = "[Tok TokenIdent ''map'', Tok TokenIdent ''gg'', Tok TokenIdent ''top'',
              Tok TokenSemicolon '';'']"
  let ?rest = "[Tok TokenIdent ''cd'', Tok TokenIdent ''/tmp'', Tok TokenSemicolon '';'']"
  let ?e = "ListExpr [SetExpr ''hidden'' [], MapExpr ''gg'' (Some (SetExpr ''shell'' ''/bin/sh''))]"
  have "gExpr (Tok TokenIdent ''top'' # map (Tok TokenIdent) [] @ [Tok TokenSemicolon '';''])
          (CallExpr ''top'' [])"
    by (rule gCall) simp
  then have g: "gExpr ?ts (MapExpr ''gg'' (Some (CallExpr ''top'' [])))"
    using gMap [of "[Tok TokenIdent ''top'', Tok TokenSemicolon '';'']" "CallExpr ''top'' []" "''gg''"]
    by simp
  have l: "lex AtExpr ?r = ?ts @ ?rest"
    by code_simp
  have e: "err (reading (newScanner ''EOF'' ?r) ?rest) = None"
    by code_simp
  have r: "reading (newScanner ''EOF'' ?r) ?rest
        = \<lparr>typ = TokenIdent, tok = ''cd'', err = None,
           pending = [Tok TokenIdent ''/tmp'', Tok TokenSemicolon '';''], eof_tok = ''EOF''\<rparr>"
    by code_simp
  have a: "at_top ?e"
    by (simp add: word_def inIdent_def isSpace_def)
  have s: "String_Expr ?e = '':{{ set hidden ; map gg set shell /bin/sh; }}''"
    by simp
  note c = C2_grammar_roundtrip [where eof = "''EOF''" and e' = ?e and ts = ?ts and r = ?r
      and rest = ?rest and e = "MapExpr ''gg'' (Some (CallExpr ''top'' []))"]
  have "parse (newParser ''EOF'' ?r)
     = (True, \<lparr>scanner = \<lparr>typ = TokenIdent, tok = ''cd'', err = None,
                           pending = [Tok TokenIdent ''/tmp'', Tok TokenSemicolon '';''],
                           eof_tok = ''EOF''\<rparr>,
               expr = Some (MapExpr ''gg'' (Some (CallExpr ''top'' []))), perr = None\<rparr>)"
    using c [THEN conjunct1, THEN mp, OF conjI [OF l conjI [OF g e]]] unfolding r .
  moreover have "parse (newParser ''EOF'' '':{{ set hidden ; map gg set shell /bin/sh; }}'')
     = (True, \<lparr>scanner = \<lparr>typ = TokenEOF, tok = ''EOF'', err = None, pending = [], eof_tok = ''EOF''\<rparr>,
               expr = Some ?e, perr = None\<rparr>)"
    using c [THEN conjunct2, THEN mp, OF a] unfolding s .
  ultimately show ?thesis using s by blast
qed

text \<open>
  C2 as stated fails, in four ways. The text of \<open>String\<close> is not the concrete syntax:
  the call parsed from \<open>open a b c;\<close> prints as \<open>open -- [a b c]\<close>, which parses to a
  call with the four arguments \<open>--\<close>, \<open>[a\<close>, \<open>b\<close>, \<open>c]\<close>; the exec expression
  parsed from the line \<open>$du -sh .|less\<close> prints as \<open>$ du -sh .|less\<close>, a raw text
  that no newline ends, and \<open>parse\<close> returns false on it. The empty brace list
  \<open>:{{ }};\<close> of the grammar is not parsed: the loop calls \<open>parseExpr\<close> before it
  looks for the closing braces. And the list in line form \<open>:set a;\<close> with its
  newline is not parsed: the scanner delivers no newline token after \<open>set a;\<close>, and
  the loop goes on to the end of the input.
\<close>

theorem C2_roundtrip_counterexample:
  "parse (newParser ''EOF'' ''open a b c;'')
     = (True, \<lparr>scanner = \<lparr>typ = TokenEOF, tok = ''EOF'', err = None, pending = [], eof_tok = ''EOF''\<rparr>,
               expr = Some (CallExpr ''open'' [''a'', ''b'', ''c'']), perr = None\<rparr>)
   \<and> String_Expr (CallExpr ''open'' [''a'', ''b'', ''c'']) = ''open -- [a b c]''
   \<and> parse (newParser ''EOF'' ''open -- [a b c]'')
     = (True, \<lparr>scanner = \<lparr>typ = TokenEOF, tok = ''EOF'', err = None, pending = [], eof_tok = ''EOF''\<rparr>,
               expr = Some (CallExpr ''open'' [''--'', ''[a'', ''b'', ''c]'']), perr = None\<rparr>)
   \<and> parse (newParser ''EOF'' ''$du -sh .|less\<newline>'')
     = (True, \<lparr>scanner = \<lparr>typ = TokenEOF, tok = ''EOF'', err = None, pending = [], eof_tok = ''EOF''\<rparr>,
               expr = Some (ExecExpr ''$'' ''du -sh .|less''), perr = None\<rparr>)
   \<and> String_Expr (ExecExpr ''$'' ''du -sh .|less'') = ''$ du -sh .|less''
   \<and> parse (newParser ''EOF'' ''$ du -sh .|less'')
     = (False, \<lparr>scanner = \<lparr>typ = TokenEOF, tok = ''EOF'', err = Some ''unterminated command'',
                            pending = [], eof_tok = ''EOF''\<rparr>,
                expr = None, perr = Some ''parsing: unterminated command''\<rparr>)
   \<and> parse (newParser ''EOF'' '':{{ }};'')
     = (False, \<lparr>scanner = \<lparr>typ = TokenRBraces, tok = ''}}'', err = None,
                            pending = [Tok TokenSemicolon '';''], eof_tok = ''EOF''\<rparr>,
                expr = None, perr = None\<rparr>)
   \<and> parse (newParser ''EOF'' '':set a;\<newline>'')
     = (False, \<lparr>scanner = \<lparr>typ = TokenEOF, tok = ''EOF'', err = None, pending = [], eof_tok = ''EOF''\<rparr>,
                expr = None, perr = None\<rparr>)"
  by code_simp

section \<open>ListExpr.String\<close>

text \<open>
  C10. For every \<open>ListExpr\<close>, whichever form it was parsed from (the node does not
  record it), \<open>String\<close> gives the brace form: the text starts with \<open>:{{ \<close>, then comes
  every element's own text followed by \<open>; \<close>, in order, and the text ends with
  \<open>}}\<close>; the empty list gives \<open>:{{ }}\<close>.
\<close>

theorem C10_ListExpr_String:
  "String_Expr (ListExpr es) = '':{{ '' @ concat (map (\<lambda>e. String_Expr e @ ''; '') es) @ ''}}''
   \<and> String_Expr (ListExpr []) = '':{{ }}''"
  by (simp add: foldl_buf)

end
